theory Spec2Isabelle
  imports Complex_Main "HOL-Library.Word" "HOL-Library.Log_Nat"
begin

unbundle bit_operations_syntax

section \<open>Line Reader: \<open>getstr\<close>\<close>

text \<open>
  The firmware reads its commands with \<open>getstr(char* buf, int nbuf)\<close>.  The characters
  that will ever arrive on \<open>stdin\<close> are a list; \<open>getc\<close> blocks, so a list that ends
  before a new-line is a read that never returns (\<open>Blocked\<close>).  The buffer is the
  array of \<open>nbuf\<close> characters behind \<open>buf\<close>; a store outside it is undefined
  behaviour in C and is the fault \<open>OutOfBounds\<close> here.  The counter \<open>i\<close> is a C
  \<open>int\<close>; it is modelled as \<open>int\<close>, and the bound proved below (\<open>0 \<le> i \<le> nbuf - 1\<close>)
  shows that it never leaves the range of a 32-bit \<open>int\<close>.
\<close>

datatype fault = Blocked | OutOfBounds

definition NL :: char where "NL = CHR 0x0A"   \<comment> \<open>\<open>'\n'\<close>\<close>
definition CR :: char where "CR = CHR 0x0D"   \<comment> \<open>\<open>'\r'\<close>\<close>
definition BS :: char where "BS = CHR 0x08"   \<comment> \<open>\<open>'\b'\<close>\<close>
definition NUL :: char where "NUL = CHR 0x00" \<comment> \<open>\<open>'\0'\<close>\<close>

definition buf_store :: "char list \<Rightarrow> int \<Rightarrow> char \<Rightarrow> fault + char list" where
  "buf_store buf i c =
     (if 0 \<le> i \<and> i < int (length buf) then Inr (buf[nat i := c]) else Inl OutOfBounds)"

text \<open>
  One equation per iteration of \<open>while (!done)\<close>: the three \<open>if\<close> statements of the
  body run in the order of the source.  The result is the count returned, the buffer,
  and the characters left on \<open>stdin\<close>.
\<close>

fun getstr_loop :: "char list \<Rightarrow> int \<Rightarrow> int \<Rightarrow> char list \<Rightarrow> fault + (int \<times> char list \<times> char list)" where
  "getstr_loop buf nbuf i [] = Inl Blocked"
| "getstr_loop buf nbuf i (c # cs) =
     (case (if c \<noteq> NL \<and> c \<noteq> CR \<and> c \<noteq> BS \<and> i < nbuf - 1
            then (case buf_store buf i c of Inl e \<Rightarrow> Inl e | Inr b \<Rightarrow> Inr (b, i + 1))
            else Inr (buf, i)) of
        Inl e \<Rightarrow> Inl e
      | Inr (buf1, i1) \<Rightarrow>
          (case (if c = NL then buf_store buf1 i1 NUL else Inr buf1) of
             Inl e \<Rightarrow> Inl e
           | Inr buf2 \<Rightarrow>
               (let i2 = (if c = BS \<and> i1 > 0 then i1 - 1 else i1)
                in if c = NL then Inr (i2, buf2, cs) else getstr_loop buf2 nbuf i2 cs)))"

definition getstr :: "char list \<Rightarrow> int \<Rightarrow> char list \<Rightarrow> fault + (int \<times> char list \<times> char list)" where
  "getstr buf nbuf input = getstr_loop buf nbuf 0 input"

section \<open>C library functions used by the interpreter\<close>

text \<open>
  \<open>strtok\<close>, \<open>atoi\<close> and the conversions of \<open>printf\<close> belong to the C library, not
  to the firmware; they are written here as ISO C describes them.
\<close>

text \<open>
  \<open>strtok s delim\<close> scans \<open>s\<close> (the string given, or the position saved by the
  previous call when the C argument is \<open>NULL\<close>): it skips leading delimiters, returns
  \<open>None\<close> (the null pointer) when nothing is left, and otherwise the token up to the
  next delimiter together with the position saved behind that delimiter.
\<close>

definition strtok :: "string \<Rightarrow> string \<Rightarrow> (string \<times> string) option" where
  "strtok s delim =
     (let s1 = dropWhile (\<lambda>c. c \<in> set delim) s
      in if s1 = [] then None
         else Some (takeWhile (\<lambda>c. c \<notin> set delim) s1,
                    drop 1 (dropWhile (\<lambda>c. c \<notin> set delim) s1)))"

definition isspace :: "char \<Rightarrow> bool" where
  "isspace c = (c \<in> {CHR '' '', CHR 0x09, CHR 0x0A, CHR 0x0B, CHR 0x0C, CHR 0x0D})"

definition isdigit :: "char \<Rightarrow> bool" where
  "isdigit c = (48 \<le> (of_char c :: nat) \<and> (of_char c :: nat) \<le> 57)"

definition digit_val :: "char \<Rightarrow> int" where
  "digit_val c = of_char c - 48"

definition INT_MAX :: int where "INT_MAX = 2147483647"
definition INT_MIN :: int where "INT_MIN = - 2147483648"

text \<open>
  \<open>atoi\<close>: optional white space, an optional sign, then the longest run of decimal
  digits; text without digits gives 0.  The result is a 32-bit \<open>int\<close>.  ISO C leaves a
  value outside the range of \<open>int\<close> undefined; the C library of the Pico SDK computes
  \<open>(int) strtol(s, NULL, 10)\<close>, which saturates, and that is what is written here.
\<close>

definition atoi :: "string \<Rightarrow> int" where
  "atoi s =
     (let s1 = dropWhile isspace s;
          neg = (case s1 of [] \<Rightarrow> False | c # _ \<Rightarrow> c = CHR ''-'');
          s2 = (case s1 of [] \<Rightarrow> [] | c # r \<Rightarrow> if c = CHR ''-'' \<or> c = CHR ''+'' then r else s1);
          v = foldl (\<lambda>a c. 10 * a + digit_val c) 0 (takeWhile isdigit s2)
      in max INT_MIN (min INT_MAX (if neg then - v else v)))"

text \<open>
  The decimal text of a non-negative number, as \<open>%u\<close> prints it and as \<open>%d\<close> prints
  a non-negative \<open>int\<close> (every \<open>%d\<close> argument of the firmware is a promoted
  \<open>uint8_t\<close> or \<open>uint16_t\<close>).
\<close>

definition digit_char :: "nat \<Rightarrow> char" where
  "digit_char d = ''0123456789'' ! d"

fun dec :: "nat \<Rightarrow> string" where
  "dec n = (if n < 10 then [digit_char n] else dec (n div 10) @ [digit_char (n mod 10)])"

declare dec.simps [simp del]

section \<open>State of the firmware and of its peripherals\<close>

text \<open>
  Every call of the firmware into the Pico SDK is an event of the trace.  The values
  that the hardware will deliver are part of the state: the readings of the ICG pin and
  of the ADC FIFO are lists, because the firmware waits for them (an exhausted list is a
  wait that never ends); the others never block and are unending feeds, the value of
  the next call first.
\<close>

type_synonym 'a feed = "nat \<Rightarrow> 'a"

definition next_value :: "'a feed \<Rightarrow> 'a" where
  "next_value f = f 0"

definition later_values :: "'a feed \<Rightarrow> 'a feed" where
  "later_values f = (\<lambda>n. f (Suc n))"

datatype hw_event =
    LedPut bool                              \<comment> \<open>\<open>gpio_put(LED_PIN, v)\<close>\<close>
  | IcgGet bool                              \<comment> \<open>\<open>gpio_get(ICG_PIN)\<close> returned \<open>v\<close>\<close>
  | AdcRead "16 word"                        \<comment> \<open>\<open>adc_read()\<close> returned \<open>v\<close>\<close>
  | TimeUs "32 word"                         \<comment> \<open>\<open>time_us_32()\<close> returned \<open>v\<close>\<close>
  | AdcRun bool                              \<comment> \<open>\<open>adc_run(v)\<close>\<close>
  | FifoGet "16 word"                        \<comment> \<open>\<open>adc_fifo_get_blocking()\<close> returned \<open>v\<close>\<close>
  | FifoDrain                                \<comment> \<open>\<open>adc_fifo_drain()\<close>\<close>
  | I2cWrite "8 word" "8 word list" nat bool int
      \<comment> \<open>\<open>i2c_write_blocking(i2c0, addr, src, len, nostop)\<close> returned \<open>n\<close>\<close>

record state =
  override_led :: "8 word"
  msg_bytes :: "8 word list"
  adc_samples :: "16 word list"
  led_level :: bool
  stdout :: string
  icg_in :: "bool list"
  fifo_in :: "16 word list"
  adc_in :: "16 word feed"
  timer_in :: "32 word feed"
  i2c_in :: "int feed"
  trace :: "hw_event list"

definition N_SAMPLES :: nat where "N_SAMPLES = 3800"

text \<open>
  The state when \<open>main\<close> enters its loop: the globals are zero-initialised,
  \<open>gpio_init(LED_PIN)\<close> has cleared the output, nothing has been printed.
\<close>

definition power_on ::
  "bool list \<Rightarrow> 16 word list \<Rightarrow> 16 word feed \<Rightarrow> 32 word feed \<Rightarrow> int feed \<Rightarrow> state" where
  "power_on icg fifo adc timer i2c =
     \<lparr> override_led = 0, msg_bytes = [0, 0, 0, 0], adc_samples = replicate N_SAMPLES 0,
       led_level = False, stdout = [], icg_in = icg, fifo_in = fifo, adc_in = adc,
       timer_in = timer, i2c_in = i2c, trace = [] \<rparr>"

definition printf :: "string \<Rightarrow> state \<Rightarrow> state" where
  "printf text s = s\<lparr>stdout := stdout s @ text\<rparr>"

definition gpio_put_LED :: "bool \<Rightarrow> state \<Rightarrow> state" where
  "gpio_put_LED v s = s\<lparr>led_level := v, trace := trace s @ [LedPut v]\<rparr>"

definition adc_read :: "state \<Rightarrow> 16 word \<times> state" where
  "adc_read s =
     (next_value (adc_in s), s\<lparr>adc_in := later_values (adc_in s), trace := trace s @ [AdcRead (next_value (adc_in s))]\<rparr>)"

definition time_us_32 :: "state \<Rightarrow> 32 word \<times> state" where
  "time_us_32 s =
     (next_value (timer_in s),
      s\<lparr>timer_in := later_values (timer_in s), trace := trace s @ [TimeUs (next_value (timer_in s))]\<rparr>)"

definition i2c_write_blocking :: "8 word \<Rightarrow> 8 word list \<Rightarrow> nat \<Rightarrow> bool \<Rightarrow> state \<Rightarrow> int \<times> state" where
  "i2c_write_blocking addr src len nostop s =
     (next_value (i2c_in s),
      s\<lparr>i2c_in := later_values (i2c_in s),
        trace := trace s @ [I2cWrite addr (take len src) len nostop (next_value (i2c_in s))]\<rparr>)"

definition sample_at :: "16 word list \<Rightarrow> nat \<Rightarrow> fault + 16 word" where
  "sample_at xs j = (if j < length xs then Inr (xs ! j) else Inl OutOfBounds)"

section \<open>Synchronized capture: the \<open>b\<close> command\<close>

text \<open>
  \<open>while (gpio_get(ICG_PIN)) { }\<close> and \<open>while (!gpio_get(ICG_PIN)) { }\<close>:
  each iteration takes the next reading of the pin.
\<close>

fun wait_while_high :: "bool list \<Rightarrow> hw_event list \<Rightarrow> fault + (bool list \<times> hw_event list)" where
  "wait_while_high [] tr = Inl Blocked"
| "wait_while_high (x # xs) tr =
     (if x then wait_while_high xs (tr @ [IcgGet x]) else Inr (xs, tr @ [IcgGet x]))"

fun wait_while_low :: "bool list \<Rightarrow> hw_event list \<Rightarrow> fault + (bool list \<times> hw_event list)" where
  "wait_while_low [] tr = Inl Blocked"
| "wait_while_low (x # xs) tr =
     (if \<not> x then wait_while_low xs (tr @ [IcgGet x]) else Inr (xs, tr @ [IcgGet x]))"

definition wait_for_ICG :: "state \<Rightarrow> fault + state" where
  "wait_for_ICG s =
     (case wait_while_high (icg_in s) (trace s) of
        Inl e \<Rightarrow> Inl e
      | Inr (xs, tr) \<Rightarrow>
          (case wait_while_low xs tr of
             Inl e \<Rightarrow> Inl e
           | Inr (ys, tr') \<Rightarrow> Inr (s\<lparr>icg_in := ys, trace := tr'\<rparr>)))"

text \<open>The loop of \<open>adc_capture\<close>: \<open>buf[i] = adc_fifo_get_blocking()\<close> for \<open>i < count\<close>.\<close>

function adc_capture_loop :: "nat \<Rightarrow> nat \<Rightarrow> state \<Rightarrow> fault + state" where
  "adc_capture_loop count i s =
     (if i < count then
        (case fifo_in s of
           [] \<Rightarrow> Inl Blocked
         | v # vs \<Rightarrow>
             if i < length (adc_samples s)
             then adc_capture_loop count (i + 1)
                    (s\<lparr>adc_samples := (adc_samples s)[i := v], fifo_in := vs,
                       trace := trace s @ [FifoGet v]\<rparr>)
             else Inl OutOfBounds)
      else Inr s)"
  by pat_completeness auto
termination
  by (relation "measure (\<lambda>(count, i, s). count - i)") auto

declare adc_capture_loop.simps [simp del]

definition adc_capture :: "nat \<Rightarrow> state \<Rightarrow> fault + state" where
  "adc_capture count s =
     (case adc_capture_loop count 0 (s\<lparr>trace := trace s @ [AdcRun True]\<rparr>) of
        Inl e \<Rightarrow> Inl e
      | Inr s1 \<Rightarrow> Inr (s1\<lparr>trace := trace s1 @ [AdcRun False, FifoDrain]\<rparr>))"

text \<open>
  The statistics of the \<open>b\<close> command are computed in single-precision floating point
  and printed with \<open>%g\<close>.  Neither is modelled: the two texts printed for the mean and
  for the standard deviation of a buffer are a parameter of the interpreter.
\<close>

type_synonym stats_text = "16 word list \<Rightarrow> string \<times> string"

definition cmd_b :: "stats_text \<Rightarrow> state \<Rightarrow> fault + state" where
  "cmd_b fp s =
     (case wait_for_ICG s of
        Inl e \<Rightarrow> Inl e
      | Inr s1 \<Rightarrow>
          (let (start, s2) = time_us_32 s1
           in case adc_capture N_SAMPLES s2 of
                Inl e \<Rightarrow> Inl e
              | Inr s3 \<Rightarrow>
                  (let (now, s4) = time_us_32 s3;
                       time_taken = now - start;
                       (mean, stddev) = fp (adc_samples s4)
                   in Inr (printf (''b '' @ mean @ '' '' @ stddev @ '' '' @ dec (unat time_taken) @ [NL])
                             s4))))"

section \<open>Data Encoder: the \<open>r\<close> and \<open>q\<close> commands\<close>

function r_loop :: "nat \<Rightarrow> state \<Rightarrow> fault + state" where
  "r_loop j s =
     (if j < N_SAMPLES then
        (case sample_at (adc_samples s) j of
           Inl e \<Rightarrow> Inl e
         | Inr v \<Rightarrow> r_loop (j + 1) (printf (dec (unat v) @ [NL]) s))
      else Inr s)"
  by pat_completeness auto
termination
  by (relation "measure (\<lambda>(j, s). N_SAMPLES - j)") auto

declare r_loop.simps [simp del]

definition base64_alphabet :: "char list" where
  "base64_alphabet =
     ''ABCDEFGHIJKLMNOP'' @ ''QRSTUVWXYZabcdef'' @ ''ghijklmnopqrstuv'' @ ''wxyz0123456789+/''"

text \<open>The two characters printed for one sample by \<open>printf("%c%c", hi, lo)\<close>.\<close>

definition q_pair :: "16 word \<Rightarrow> string" where
  "q_pair val =
     (let hi = base64_alphabet ! unat (drop_bit 6 (val AND 0x0FFF));
          lo = base64_alphabet ! unat (val AND 0x003F)
      in [hi, lo])"

function q_inner_loop :: "nat \<Rightarrow> nat \<Rightarrow> state \<Rightarrow> fault + state" where
  "q_inner_loop j k s =
     (if k < 20 then
        (case sample_at (adc_samples s) (j * 20 + k) of
           Inl e \<Rightarrow> Inl e
         | Inr val \<Rightarrow> q_inner_loop j (k + 1) (printf (q_pair val) s))
      else Inr s)"
  by pat_completeness auto
termination
  by (relation "measure (\<lambda>(j, k, s). 20 - k)") auto

declare q_inner_loop.simps [simp del]

function q_loop :: "nat \<Rightarrow> state \<Rightarrow> fault + state" where
  "q_loop j s =
     (if j < N_SAMPLES div 20 then
        (case q_inner_loop j 0 s of
           Inl e \<Rightarrow> Inl e
         | Inr s1 \<Rightarrow> q_loop (j + 1) (printf [NL] s1))
      else Inr s)"
  by pat_completeness auto
termination
  by (relation "measure (\<lambda>(j, s). N_SAMPLES div 20 - j)") auto

declare q_loop.simps [simp del]

section \<open>The LED and the clock-period commands\<close>

definition sep_tok :: string where
  "sep_tok = '', ''"

definition cmd_L :: "string \<Rightarrow> state \<Rightarrow> state" where
  "cmd_L args s =
     (case strtok args sep_tok of
        Some (token, saved) \<Rightarrow>
          (let i = (ucast ((word_of_int (atoi token) :: 32 word) AND 1) :: 8 word);
               s1 = gpio_put_LED (i \<noteq> 0) s;
               s2 = s1\<lparr>override_led := i\<rparr>
           in printf (''L '' @ dec (unat i) @ [NL]) s2)
      | None \<Rightarrow> printf (''L error: no value'' @ [NL]) s)"

definition cmd_p :: "string \<Rightarrow> state \<Rightarrow> state" where
  "cmd_p args s =
     (case strtok args sep_tok of
        Some (token, saved) \<Rightarrow>
          (let us_SH = (word_of_int (atoi token) :: 16 word)
           in case strtok saved sep_tok of
                Some (token2, saved2) \<Rightarrow>
                  (let us_ICG = (word_of_int (atoi token2) :: 16 word);
                       s1 = s\<lparr>msg_bytes :=
                               [ucast (drop_bit 8 (us_SH AND 0xff00)), ucast (us_SH AND 0x00ff),
                                ucast (drop_bit 8 (us_ICG AND 0xff00)), ucast (us_ICG AND 0x00ff)]\<rparr>;
                       addr = (0x51 :: 8 word);
                       (nresult, s2) = i2c_write_blocking addr (msg_bytes s1) 4 False s1
                   in if nresult \<noteq> 4
                      then printf (''p error: unsuccessful I2C communication'' @ [NL]) s2
                      else printf (''p '' @ dec (unat us_SH) @ '' '' @ dec (unat us_ICG) @ [NL]) s2)
              | None \<Rightarrow> printf (''p error: no value for us_ICG'' @ [NL]) s)
      | None \<Rightarrow> printf (''p error: no value for us_SH (nor us_ICG)'' @ [NL]) s)"

section \<open>Command Dispatcher: \<open>interpret_command\<close>\<close>

definition VERSION_STR :: string where
  "VERSION_STR = ''v0.3 2025-01-08 TCD1304DG linear-image-sensor reader''"

text \<open>
  \<open>cmdStr\<close> is the C string of the command line, \<open>cmdStr[0]\<close> its first character (the
  terminator when the string is empty), and \<open>&cmdStr[1]\<close> the rest, which the handlers
  of \<open>L\<close> and \<open>p\<close> give to \<open>strtok\<close>.  The \<open>switch\<close> is the chain of tests in the
  order of its cases.  The result is \<open>Inl\<close> when the command never returns.
\<close>

definition interpret_command :: "stats_text \<Rightarrow> string \<Rightarrow> state \<Rightarrow> fault + state" where
  "interpret_command fp cmdStr s =
     (let s1 = (if override_led s = 0 then gpio_put_LED True s else s);
          c0 = (case cmdStr of [] \<Rightarrow> NUL | c # _ \<Rightarrow> c);
          r = (if c0 = CHR ''v'' then Inr (printf (''v '' @ VERSION_STR @ [NL]) s1)
               else if c0 = CHR ''L'' then Inr (cmd_L (tl cmdStr) s1)
               else if c0 = CHR ''a'' then
                 (let (adc_raw, s2) = adc_read s1
                  in Inr (printf (''a '' @ dec (unat adc_raw) @ [NL]) s2))
               else if c0 = CHR ''b'' then cmd_b fp s1
               else if c0 = CHR ''r'' then r_loop 0 s1
               else if c0 = CHR ''q'' then q_loop 0 s1
               else if c0 = CHR ''p'' then Inr (cmd_p (tl cmdStr) s1)
               else Inr (printf ([c0] @ '' error: Unknown command'' @ [NL]) s1))
      in case r of
           Inl e \<Rightarrow> Inl e
         | Inr s3 \<Rightarrow> Inr (if override_led s3 = 0 then gpio_put_LED False s3 else s3))"

section \<open>Statistics Computer: the arithmetic of the \<open>b\<close> command\<close>

text \<open>
  The statistics are computed in C \<open>float\<close>, which on this target is IEEE 754
  binary32.  A floating-point value is the real number it stands for, and every
  operation yields the exact result rounded to the nearest number with \<open>p\<close>
  significant bits, ties going to the even significand (\<open>p = 24\<close> for \<open>float\<close>,
  \<open>p = 53\<close> for the \<open>double\<close> in which \<open>sqrt\<close> works).  Each operation is rounded on
  its own.  Overflow and subnormal numbers are left out: the nonzero values of this
  computation lie well inside the normal range of both formats.

  \<open>exponent x\<close> is the \<open>e\<close> with \<open>2 powi e \<le> x < 2 powi (e + 1)\<close>, for \<open>x > 0\<close>.
\<close>

definition exponent :: "real \<Rightarrow> int" where
  "exponent x = (if 1 \<le> x then bitlen \<lfloor>x\<rfloor> - 1 else - bitlen (\<lceil>1 / x\<rceil> - 1))"

definition round_half_even :: "real \<Rightarrow> int" where
  "round_half_even y =
     (let f = \<lfloor>y\<rfloor>; r = y - of_int f
      in if r < 1 / 2 then f else if 1 / 2 < r then f + 1 else if even f then f else f + 1)"

definition round_to :: "nat \<Rightarrow> real \<Rightarrow> real" where
  "round_to p x =
     (if x = 0 then 0
      else let q = 2 powi (exponent \<bar>x\<bar> - int p + 1)
           in of_int (round_half_even (x / q)) * q)"

definition f32 :: "real \<Rightarrow> real" where
  "f32 = round_to 24"

definition f64 :: "real \<Rightarrow> real" where
  "f64 = round_to 53"





section \<open>Notions used to state the properties\<close>

text \<open>
  The tokens of an argument string: what successive calls of \<open>strtok\<close> with the
  separators of the interpreter return until the null pointer.
\<close>

function tokens :: "string \<Rightarrow> string list" where
  "tokens s =
     (case strtok s sep_tok of None \<Rightarrow> [] | Some (token, saved) \<Rightarrow> token # tokens saved)"
  by pat_completeness auto
termination
proof (relation "measure length")
  fix s x2 token saved
  assume "strtok s sep_tok = Some x2" and "(token, saved) = x2"
  then have a: "strtok s sep_tok = Some (token, saved)" by simp
  let ?s1 = "dropWhile (\<lambda>c. c \<in> set sep_tok) s"
  from a have ne: "?s1 \<noteq> []"
    and sv: "saved = drop 1 (dropWhile (\<lambda>c. c \<notin> set sep_tok) ?s1)"
    by (auto simp: strtok_def Let_def split: if_splits)
  have "length saved \<le> length (dropWhile (\<lambda>c. c \<notin> set sep_tok) ?s1) - 1"
    using sv by simp
  moreover have "length (dropWhile (\<lambda>c. c \<notin> set sep_tok) ?s1) \<le> length ?s1"
    by (rule length_dropWhile_le)
  moreover have "length ?s1 \<le> length s"
    by (rule length_dropWhile_le)
  moreover have "length ?s1 > 0"
    using ne by simp
  ultimately have "length saved < length s" by linarith
  then show "(saved, s) \<in> measure length" by simp
qed simp

declare tokens.simps [simp del]

text \<open>Several command lines interpreted one after the other, as the loop of \<open>main\<close> does.\<close>

fun run_commands :: "stats_text \<Rightarrow> string list \<Rightarrow> state \<Rightarrow> fault + state" where
  "run_commands fp [] s = Inr s"
| "run_commands fp (cmdStr # rest) s =
     (case interpret_command fp cmdStr s of
        Inl e \<Rightarrow> Inl e
      | Inr s' \<Rightarrow> run_commands fp rest s')"

text \<open>
  The host's side of the packed report: the value of a character is its position in the
  alphabet, and a pair of characters stands for \<open>64 * hi + lo\<close>.
\<close>

fun index_of :: "char \<Rightarrow> char list \<Rightarrow> nat" where
  "index_of c [] = 0"
| "index_of c (x # xs) = (if x = c then 0 else Suc (index_of c xs))"

definition decode_pair :: "char \<Rightarrow> char \<Rightarrow> nat" where
  "decode_pair hi lo = 64 * index_of hi base64_alphabet + index_of lo base64_alphabet"

text \<open>Line \<open>j\<close> of the packed report of a buffer, without its line break.\<close>

definition q_line :: "16 word list \<Rightarrow> nat \<Rightarrow> string" where
  "q_line xs j = concat (map (\<lambda>k. q_pair (xs ! (j * 20 + k))) [0..<20])"

text \<open>
  The wait as the specification words it: poll until the pin reads high, then poll
  until it reads low.  It is compared with \<open>wait_for_ICG\<close> below.
\<close>

definition wait_high_then_low_spec :: "state \<Rightarrow> fault + state" where
  "wait_high_then_low_spec s =
     (case wait_while_low (icg_in s) (trace s) of
        Inl e \<Rightarrow> Inl e
      | Inr (xs, tr) \<Rightarrow>
          (case wait_while_high xs tr of
             Inl e \<Rightarrow> Inl e
           | Inr (ys, tr') \<Rightarrow> Inr (s\<lparr>icg_in := ys, trace := tr'\<rparr>)))"

text \<open>
  Between two commands the LED is dark unless the \<open>L\<close> command has taken it over:
  this holds at power-on and after every command.
\<close>

definition led_idle :: "state \<Rightarrow> bool" where
  "led_idle s = (override_led s \<noteq> 0 \<or> \<not> led_level s)"


section \<open>Basic facts\<close>

lemma printf_fields [simp]:
  "stdout (printf t s) = stdout s @ t"
  "adc_samples (printf t s) = adc_samples s"
  "override_led (printf t s) = override_led s"
  "msg_bytes (printf t s) = msg_bytes s"
  "led_level (printf t s) = led_level s"
  "icg_in (printf t s) = icg_in s"
  "fifo_in (printf t s) = fifo_in s"
  "adc_in (printf t s) = adc_in s"
  "timer_in (printf t s) = timer_in s"
  "i2c_in (printf t s) = i2c_in s"
  "trace (printf t s) = trace s"
  by (simp_all add: printf_def)

lemma gpio_put_LED_fields [simp]:
  "stdout (gpio_put_LED v s) = stdout s"
  "adc_samples (gpio_put_LED v s) = adc_samples s"
  "override_led (gpio_put_LED v s) = override_led s"
  "msg_bytes (gpio_put_LED v s) = msg_bytes s"
  "led_level (gpio_put_LED v s) = v"
  "icg_in (gpio_put_LED v s) = icg_in s"
  "fifo_in (gpio_put_LED v s) = fifo_in s"
  "adc_in (gpio_put_LED v s) = adc_in s"
  "timer_in (gpio_put_LED v s) = timer_in s"
  "i2c_in (gpio_put_LED v s) = i2c_in s"
  "trace (gpio_put_LED v s) = trace s @ [LedPut v]"
  by (simp_all add: gpio_put_LED_def)

lemma printf_printf: "printf b (printf a s) = printf (a @ b) s"
  by (simp add: printf_def)

lemma printf_Nil: "printf [] s = s"
  by (simp add: printf_def)

subsection \<open>Tokens\<close>

lemma strtok_None_iff: "strtok s delim = None \<longleftrightarrow> set s \<subseteq> set delim"
  by (auto simp: strtok_def Let_def dropWhile_eq_Nil_conv)

lemma tokens_Nil_iff: "tokens s = [] \<longleftrightarrow> strtok s sep_tok = None"
  by (subst tokens.simps) (simp split: option.splits)

lemma tokens_Cons_iff:
  "tokens s = t # ts \<longleftrightarrow> (\<exists>saved. strtok s sep_tok = Some (t, saved) \<and> tokens saved = ts)"
  by (subst tokens.simps) (auto split: option.splits)

subsection \<open>Decimal text\<close>

lemma digit_char_isdigit: "d < 10 \<Longrightarrow> isdigit (digit_char d)"
proof -
  assume "d < 10"
  then have "d = 0 \<or> d = 1 \<or> d = 2 \<or> d = 3 \<or> d = 4 \<or> d = 5 \<or> d = 6 \<or> d = 7 \<or> d = 8 \<or> d = 9"
    by presburger
  then show ?thesis
    by (elim disjE) (simp_all add: isdigit_def digit_char_def)
qed

lemma dec_digits: "c \<in> set (dec n) \<Longrightarrow> isdigit c"
proof (induction n arbitrary: c rule: dec.induct)
  case (1 n)
  show ?case
  proof (cases "n < 10")
    case True
    with "1.prems" show ?thesis
      by (subst (asm) dec.simps) (simp add: digit_char_isdigit)
  next
    case False
    with "1.prems" have "c \<in> set (dec (n div 10)) \<or> c = digit_char (n mod 10)"
      by (subst (asm) dec.simps) auto
    with False "1.IH" show ?thesis
      by (auto simp: digit_char_isdigit)
  qed
qed

lemma dec_not_Nil: "dec n \<noteq> []"
  by (subst dec.simps) simp

lemma NL_notin_dec: "NL \<notin> set (dec n)"
  using dec_digits [of NL n] by (auto simp: isdigit_def NL_def)

subsection \<open>Bit fields of machine words\<close>

lemma unat_and_mask_mod: "unat ((w :: 'a::len word) AND mask n) = unat w mod 2 ^ n"
proof -
  have "unat (w AND mask n) = unat (take_bit n w)"
    by (simp only: take_bit_eq_mask)
  also have "\<dots> = take_bit n (unat w)"
    by (rule unsigned_take_bit_eq)
  also have "\<dots> = unat w mod 2 ^ n"
    by (rule take_bit_eq_mod)
  finally show ?thesis .
qed

lemma unat_drop_bit_div: "unat (drop_bit n (w :: 'a::len word)) = unat w div 2 ^ n"
  by (subst unat_drop_bit_eq) (rule drop_bit_eq_div)

lemma unat_ucast_mod:
  "unat (ucast (w :: 'a::len word) :: 'b::len word) = unat w mod 2 ^ LENGTH('b)"
  by (simp only: unsigned_ucast_eq take_bit_eq_mod)

lemma unat_low6: "unat ((val :: 16 word) AND 0x003F) = unat val mod 64"
proof -
  have m: "(0x3F :: 16 word) = mask 6"
    by (simp add: mask_eq_exp_minus_1)
  show ?thesis
    unfolding m unat_and_mask_mod by simp
qed

lemma unat_high6: "unat (drop_bit 6 ((val :: 16 word) AND 0x0FFF)) = unat val mod 4096 div 64"
proof -
  have m: "(0xFFF :: 16 word) = mask 12"
    by (simp add: mask_eq_exp_minus_1)
  show ?thesis
    unfolding m unat_drop_bit_div unat_and_mask_mod by simp
qed

lemma unat_lo_byte: "unat (ucast ((w :: 16 word) AND 0x00ff) :: 8 word) = unat w mod 256"
proof -
  have m: "(0xff :: 16 word) = mask 8"
    by (simp add: mask_eq_exp_minus_1)
  show ?thesis
    unfolding m unat_ucast_mod unat_and_mask_mod by simp
qed

lemma hi_byte_mask: "drop_bit 8 ((w :: 16 word) AND 0xff00) = drop_bit 8 w"
proof -
  have m: "(0xff00 :: 16 word) = push_bit 8 (mask 8)"
    by (simp add: mask_eq_exp_minus_1 push_bit_eq_mult)
  show ?thesis
    unfolding m by (rule bit_word_eqI) (auto simp: bit_simps dest: bit_imp_le_length)
qed

lemma unat_hi_byte:
  "unat (ucast (drop_bit 8 ((w :: 16 word) AND 0xff00)) :: 8 word) = unat w div 256"
proof -
  have "unat w < 2 ^ 16"
    using unsigned_less [of w] by simp
  then have "unat w div 256 < 256" by simp
  then show ?thesis
    unfolding hi_byte_mask unat_ucast_mod unat_drop_bit_div by simp
qed

lemma unat_u16_of_int: "unat (word_of_int a :: 16 word) = nat (a mod 65536)"
  by (simp add: unat_eq_nat_uint uint_word_of_int)

lemma lsb_of_int: "(word_of_int v :: 32 word) AND 1 = (if odd v then 1 else 0)"
proof -
  have "odd (word_of_int v :: 32 word) = odd v"
    using bit_word_of_int_iff [of v 0, where 'a=32] by (simp add: bit_0)
  then show ?thesis
    by (simp add: and_one_eq mod_2_eq_odd)
qed

lemma unat_lsb: "unat (ucast ((word_of_int v :: 32 word) AND 1) :: 8 word) = nat (v mod 2)"
  by (cases "odd v") (simp_all add: lsb_of_int odd_iff_mod_2_eq_one)

lemma lsb_nonzero:
  "(ucast ((word_of_int v :: 32 word) AND 1) :: 8 word) \<noteq> 0 \<longleftrightarrow> v mod 2 = 1"
  by (cases "odd v") (simp_all add: lsb_of_int odd_iff_mod_2_eq_one)

subsection \<open>The alphabet\<close>

lemma index_of_nth: "distinct xs \<Longrightarrow> n < length xs \<Longrightarrow> index_of (xs ! n) xs = n"
proof (induction xs arbitrary: n)
  case Nil
  then show ?case by simp
next
  case (Cons x xs)
  then show ?case by (cases n) auto
qed

lemma distinct_base64_alphabet: "distinct base64_alphabet"
  by (simp add: base64_alphabet_def)

lemma length_base64_alphabet: "length base64_alphabet = 64"
  by (simp add: base64_alphabet_def)

lemma NL_notin_alphabet: "NL \<notin> set base64_alphabet"
  by (simp add: base64_alphabet_def NL_def)

lemma concat_pairs_nth:
  assumes "\<And>x. length (f x) = 2" and "k < length xs"
  shows "concat (map f xs) ! (2 * k) = f (xs ! k) ! 0
       \<and> concat (map f xs) ! (2 * k + 1) = f (xs ! k) ! 1"
  using assms(2)
proof (induction xs arbitrary: k)
  case Nil
  then show ?case by simp
next
  case (Cons x xs)
  show ?case
  proof (cases k)
    case 0
    then show ?thesis
      using assms(1) [of x] by (simp add: nth_append)
  next
    case (Suc k')
    with Cons.prems have "k' < length xs" by simp
    from Cons.IH [OF this] Suc show ?thesis
      using assms(1) [of x] by (simp add: nth_append)
  qed
qed

subsection \<open>The loops\<close>

lemma q_inner_loop_run:
  "k \<le> 20 \<Longrightarrow> j * 20 + 20 \<le> length (adc_samples s) \<Longrightarrow>
   q_inner_loop j k s
     = Inr (printf (concat (map (\<lambda>k. q_pair (adc_samples s ! (j * 20 + k))) [k..<20])) s)"
proof (induction j k s rule: q_inner_loop.induct)
  case (1 j k s)
  show ?case
  proof (cases "k < 20")
    case True
    then have "q_inner_loop j k s = q_inner_loop j (k + 1) (printf (q_pair (adc_samples s ! (j * 20 + k))) s)"
      using "1.prems" by (subst q_inner_loop.simps) (simp add: sample_at_def)
    also have "\<dots> = Inr (printf (concat (map (\<lambda>k. q_pair (adc_samples s ! (j * 20 + k))) [k + 1..<20]))
                         (printf (q_pair (adc_samples s ! (j * 20 + k))) s))"
      using True "1.prems" by (subst "1.IH") (simp_all add: sample_at_def)
    finally show ?thesis
      using True by (simp add: printf_printf upt_conv_Cons)
  next
    case False
    with "1.prems" have "k = 20" by simp
    then show ?thesis by (subst q_inner_loop.simps) (simp add: printf_Nil)
  qed
qed

lemma q_loop_run:
  "j \<le> N_SAMPLES div 20 \<Longrightarrow> length (adc_samples s) = N_SAMPLES \<Longrightarrow>
   q_loop j s
     = Inr (printf (concat (map (\<lambda>j. q_line (adc_samples s) j @ [NL]) [j..<N_SAMPLES div 20])) s)"
proof (induction j s rule: q_loop.induct)
  case (1 j s)
  show ?case
  proof (cases "j < N_SAMPLES div 20")
    case True
    then have fits: "j * 20 + 20 \<le> length (adc_samples s)"
      using "1.prems" by (simp add: N_SAMPLES_def)
    have inner: "q_inner_loop j 0 s = Inr (printf (q_line (adc_samples s) j) s)"
      using q_inner_loop_run [of 0 j s] fits by (simp add: q_line_def)
    have "q_loop j s = q_loop (j + 1) (printf [NL] (printf (q_line (adc_samples s) j) s))"
      using True by (subst q_loop.simps) (simp add: inner)
    also have "\<dots> = Inr (printf (concat (map (\<lambda>j. q_line (adc_samples s) j @ [NL]) [j + 1..<N_SAMPLES div 20]))
                          (printf [NL] (printf (q_line (adc_samples s) j) s)))"
      using True "1.prems" inner by (subst "1.IH") simp_all
    finally show ?thesis
      using True by (simp add: printf_printf upt_conv_Cons)
  next
    case False
    with "1.prems" have "[j..<N_SAMPLES div 20] = []" by simp
    with False show ?thesis by (subst q_loop.simps) (simp add: printf_Nil)
  qed
qed

lemma r_loop_run:
  "j \<le> N_SAMPLES \<Longrightarrow> length (adc_samples s) = N_SAMPLES \<Longrightarrow>
   r_loop j s
     = Inr (printf (concat (map (\<lambda>j. dec (unat (adc_samples s ! j)) @ [NL]) [j..<N_SAMPLES])) s)"
proof (induction j s rule: r_loop.induct)
  case (1 j s)
  show ?case
  proof (cases "j < N_SAMPLES")
    case True
    have "r_loop j s = r_loop (j + 1) (printf (dec (unat (adc_samples s ! j)) @ [NL]) s)"
      using True "1.prems" by (subst r_loop.simps) (simp add: sample_at_def)
    also have "\<dots> = Inr (printf (concat (map (\<lambda>j. dec (unat (adc_samples s ! j)) @ [NL]) [j + 1..<N_SAMPLES]))
                          (printf (dec (unat (adc_samples s ! j)) @ [NL]) s))"
      using True "1.prems" by (subst "1.IH") (simp_all add: sample_at_def)
    finally show ?thesis
      using True by (simp add: printf_printf upt_conv_Cons)
  next
    case False
    with "1.prems" have "[j..<N_SAMPLES] = []" by simp
    with False show ?thesis by (subst r_loop.simps) (simp add: printf_Nil)
  qed
qed

lemma adc_capture_loop_run:
  "i \<le> count \<Longrightarrow> count \<le> length (adc_samples s) \<Longrightarrow> fifo_in s = vs @ later \<Longrightarrow>
   length vs = count - i \<Longrightarrow>
   adc_capture_loop count i s
     = Inr (s\<lparr>adc_samples := take i (adc_samples s) @ vs @ drop count (adc_samples s),
              fifo_in := later, trace := trace s @ map FifoGet vs\<rparr>)"
proof (induction count i s arbitrary: vs rule: adc_capture_loop.induct)
  case (1 count i s)
  show ?case
  proof (cases "i < count")
    case True
    with "1.prems" obtain v vs' where vs: "vs = v # vs'" by (cases vs) auto
    let ?s1 = "s\<lparr>adc_samples := (adc_samples s)[i := v], fifo_in := vs' @ later,
                   trace := trace s @ [FifoGet v]\<rparr>"
    have step: "adc_capture_loop count i s = adc_capture_loop count (i + 1) ?s1"
      using True "1.prems" vs by (subst adc_capture_loop.simps) simp
    have "adc_capture_loop count (i + 1) ?s1
        = Inr (?s1\<lparr>adc_samples := take (i + 1) (adc_samples ?s1) @ vs' @ drop count (adc_samples ?s1),
              fifo_in := later, trace := trace ?s1 @ map FifoGet vs'\<rparr>)"
      using True "1.prems" vs by (intro "1.IH" [of v "vs' @ later" vs']) auto
    moreover have "take (i + 1) ((adc_samples s)[i := v]) = take i (adc_samples s) @ [v]"
      using True "1.prems" by (simp add: take_Suc_conv_app_nth)
    ultimately show ?thesis
      using step vs True by simp
  next
    case False
    with "1.prems" have "i = count" "vs = []" by auto
    then show ?thesis
      using "1.prems" by (subst adc_capture_loop.simps) simp
  qed
qed

section \<open>The line reader returns and stays inside its buffer\<close>

lemma getstr_loop_returns:
  "NL \<in> set input \<Longrightarrow> 0 \<le> i \<Longrightarrow> i \<le> nbuf - 1 \<Longrightarrow> int (length buf) = nbuf \<Longrightarrow>
   \<exists>R buf'. getstr_loop buf nbuf i input = Inr (R, buf', drop 1 (dropWhile (\<lambda>c. c \<noteq> NL) input))
      \<and> 0 \<le> R \<and> R \<le> nbuf - 1 \<and> length buf' = length buf \<and> buf' ! nat R = NUL"
proof (induction input arbitrary: i buf)
  case Nil
  then show ?case by simp
next
  case (Cons c cs)
  show ?case
  proof (cases "c = NL")
    case True
    with Cons.prems show ?thesis
      by (auto simp: buf_store_def NL_def BS_def CR_def)
  next
    case False
    with Cons.prems have nl: "NL \<in> set cs" by auto
    show ?thesis
    proof (cases "c \<noteq> CR \<and> c \<noteq> BS \<and> i < nbuf - 1")
      case True
      have "\<exists>R buf'. getstr_loop (buf[nat i := c]) nbuf (i + 1) cs
                = Inr (R, buf', drop 1 (dropWhile (\<lambda>c. c \<noteq> NL) cs))
              \<and> 0 \<le> R \<and> R \<le> nbuf - 1
              \<and> length buf' = length (buf[nat i := c]) \<and> buf' ! nat R = NUL"
        using Cons.prems True by (intro Cons.IH [OF nl]) auto
      with True False Cons.prems show ?thesis
        by (auto simp: buf_store_def)
    next
      case stay: False
      let ?i2 = "if c = BS \<and> i > 0 then i - 1 else i"
      have "\<exists>R buf'. getstr_loop buf nbuf ?i2 cs
                = Inr (R, buf', drop 1 (dropWhile (\<lambda>c. c \<noteq> NL) cs))
              \<and> 0 \<le> R \<and> R \<le> nbuf - 1 \<and> length buf' = length buf \<and> buf' ! nat R = NUL"
        using Cons.prems by (intro Cons.IH [OF nl]) auto
      with stay False Cons.prems show ?thesis
        by (auto simp: buf_store_def Let_def)
    qed
  qed
qed

text \<open>
  Claim C9.  Whenever a new-line eventually arrives and the buffer has \<open>nbuf \<ge> 1\<close>
  places, \<open>getstr\<close> returns (it neither waits for ever nor stores outside the buffer,
  which would be the faults \<open>Blocked\<close> and \<open>OutOfBounds\<close>); the count \<open>R\<close> returned
  satisfies \<open>0 \<le> R \<le> nbuf - 1\<close>, the terminator stands at \<open>buf[R]\<close>, and the input is
  consumed up to and including the first new-line, whatever came before it.
\<close>

theorem getstr_returns_in_bounds:
  assumes "NL \<in> set input" and "1 \<le> nbuf" and "int (length buf) = nbuf"
  shows "\<exists>R buf'. getstr buf nbuf input = Inr (R, buf', drop 1 (dropWhile (\<lambda>c. c \<noteq> NL) input))
           \<and> 0 \<le> R \<and> R \<le> nbuf - 1 \<and> length buf' = length buf \<and> buf' ! nat R = NUL"
  unfolding getstr_def using assms by (intro getstr_loop_returns) auto

theorem getstr_returns_in_bounds_witness:
  "NL \<in> set (''abcdef'' @ [BS, BS, BS, CHR ''z'', NL] @ ''q'') \<and> (1::int) \<le> 4
   \<and> int (length ''xxxx'') = 4
   \<and> (\<exists>R buf'. getstr ''xxxx'' 4 (''abcdef'' @ [BS, BS, BS, CHR ''z'', NL] @ ''q'')
                  = Inr (R, buf', ''q'')
         \<and> 0 \<le> R \<and> R \<le> 4 - 1 \<and> length buf' = length ''xxxx'' \<and> buf' ! nat R = NUL)"
proof -
  let ?input = "''abcdef'' @ [BS, BS, BS, CHR ''z'', NL] @ ''q''"
  have h1: "NL \<in> set ?input" by simp
  have h2: "(1::int) \<le> 4" by simp
  have h3: "int (length ''xxxx'') = 4" by simp
  show ?thesis
    using h1 h3 getstr_returns_in_bounds [OF h1 h2 h3] by (simp add: NL_def BS_def)
qed

section \<open>The packed report\<close>

lemma bits_6_to_11: "(a::nat) mod 4096 div 64 = a div 64 mod 64"
proof -
  have "a mod 4096 = 64 * (a div 64 mod 64) + a mod 64"
    using mod_mult2_eq [of a 64 64] by simp
  then show ?thesis by simp
qed

lemma length_q_pair: "length (q_pair v) = 2"
  by (simp add: q_pair_def Let_def)

lemma q_pair_chars:
  "q_pair v = [base64_alphabet ! (unat v mod 4096 div 64), base64_alphabet ! (unat v mod 64)]"
  by (simp only: q_pair_def Let_def unat_low6 unat_high6)

lemma set_q_pair: "set (q_pair v) \<subseteq> set base64_alphabet"
proof -
  have "unat v mod 4096 div 64 < 64" by simp
  moreover have "unat v mod 64 < 64" by simp
  ultimately show ?thesis
    unfolding q_pair_chars using length_base64_alphabet nth_mem
    by (metis empty_subsetI insert_subset list.simps(15) set_empty)
qed

lemma decode_q_pair: "decode_pair (q_pair v ! 0) (q_pair v ! 1) = unat v mod 4096"
proof -
  have a: "unat v mod 4096 div 64 < 64" by simp
  have b: "unat v mod 64 < 64" by simp
  have "index_of (base64_alphabet ! (unat v mod 4096 div 64)) base64_alphabet = unat v mod 4096 div 64"
    using a by (intro index_of_nth distinct_base64_alphabet) (simp add: length_base64_alphabet)
  moreover have "index_of (base64_alphabet ! (unat v mod 64)) base64_alphabet = unat v mod 64"
    using b by (intro index_of_nth distinct_base64_alphabet) (simp add: length_base64_alphabet)
  moreover have "64 * (unat v mod 4096 div 64) + unat v mod 64 = unat v mod 4096"
  proof -
    have "unat v mod 4096 mod 64 = unat v mod 64"
      by (simp add: mod_mod_cancel)
    then show ?thesis
      using mult_div_mod_eq [of 64 "unat v mod 4096"] by simp
  qed
  ultimately show ?thesis
    by (simp add: decode_pair_def q_pair_chars)
qed

lemma length_q_line: "length (q_line xs j) = 40"
  by (simp add: q_line_def length_concat comp_def length_q_pair sum_list_triv)

lemma set_q_line: "set (q_line xs j) \<subseteq> set base64_alphabet"
  using set_q_pair by (auto simp: q_line_def)

lemma q_line_nth:
  assumes "k < 20"
  shows "q_line xs j ! (2 * k) = q_pair (xs ! (j * 20 + k)) ! 0
       \<and> q_line xs j ! (2 * k + 1) = q_pair (xs ! (j * 20 + k)) ! 1"
proof -
  have "q_line xs j = concat (map q_pair (map (\<lambda>k. xs ! (j * 20 + k)) [0..<20]))"
    by (simp add: q_line_def comp_def)
  then show ?thesis
    using concat_pairs_nth [of q_pair k "map (\<lambda>k. xs ! (j * 20 + k)) [0..<20]"] assms
    by (simp add: length_q_pair)
qed

lemma interpret_q:
  assumes "length (adc_samples s) = N_SAMPLES"
  shows "\<exists>s'. interpret_command fp (CHR ''q'' # args) s = Inr s'
     \<and> stdout s' = stdout s
         @ concat (map (\<lambda>j. q_line (adc_samples s) j @ [NL]) [0..<N_SAMPLES div 20])
     \<and> adc_samples s' = adc_samples s"
proof -
  let ?s1 = "if override_led s = 0 then gpio_put_LED True s else s"
  have len: "length (adc_samples ?s1) = N_SAMPLES" using assms by simp
  show ?thesis
    unfolding interpret_command_def Let_def
    using q_loop_run [of 0 ?s1, OF _ len]
    by (simp split: if_splits)
qed

text \<open>
  Claim C1.  With the Sample Buffer of \<open>N_SAMPLES = 3800\<close> samples, the \<open>q\<close> command
  returns and prints \<open>N_SAMPLES div 20\<close> lines, each of 40 characters of the alphabet
  followed by a line break.  Sample \<open>i\<close> stands on line \<open>i div 20\<close> at the positions
  \<open>2 * (i mod 20)\<close> and \<open>2 * (i mod 20) + 1\<close>: first the alphabet character of its bits
  6 to 11, then the one of its bits 0 to 5; decoding the pair gives the sample modulo
  4096.
\<close>

theorem q_report_packed:
  assumes "length (adc_samples s) = N_SAMPLES"
  shows "\<exists>s' ls. interpret_command fp (CHR ''q'' # args) s = Inr s'
     \<and> stdout s' = stdout s @ concat (map (\<lambda>l. l @ [NL]) ls)
     \<and> length ls = N_SAMPLES div 20
     \<and> (\<forall>l \<in> set ls. length l = 40 \<and> set l \<subseteq> set base64_alphabet)
     \<and> (\<forall>i < N_SAMPLES.
          ls ! (i div 20) ! (2 * (i mod 20))
            = base64_alphabet ! (unat (adc_samples s ! i) div 64 mod 64)
        \<and> ls ! (i div 20) ! (2 * (i mod 20) + 1)
            = base64_alphabet ! (unat (adc_samples s ! i) mod 64)
        \<and> decode_pair (ls ! (i div 20) ! (2 * (i mod 20))) (ls ! (i div 20) ! (2 * (i mod 20) + 1))
            = unat (adc_samples s ! i) mod 4096)"
proof -
  let ?xs = "adc_samples s"
  let ?ls = "map (q_line ?xs) [0..<N_SAMPLES div 20]"
  from interpret_q [OF assms, of fp args] obtain s' where
    run: "interpret_command fp (CHR ''q'' # args) s = Inr s'" and
    out: "stdout s' = stdout s @ concat (map (\<lambda>j. q_line ?xs j @ [NL]) [0..<N_SAMPLES div 20])"
    by blast
  have out': "stdout s' = stdout s @ concat (map (\<lambda>l. l @ [NL]) ?ls)"
    using out by (simp add: comp_def)
  have lines: "\<forall>l \<in> set ?ls. length l = 40 \<and> set l \<subseteq> set base64_alphabet"
    using length_q_line set_q_line by auto
  have len: "length ?ls = N_SAMPLES div 20" by simp
  have samples: "\<forall>i < N_SAMPLES.
          ?ls ! (i div 20) ! (2 * (i mod 20)) = base64_alphabet ! (unat (?xs ! i) div 64 mod 64)
        \<and> ?ls ! (i div 20) ! (2 * (i mod 20) + 1) = base64_alphabet ! (unat (?xs ! i) mod 64)
        \<and> decode_pair (?ls ! (i div 20) ! (2 * (i mod 20))) (?ls ! (i div 20) ! (2 * (i mod 20) + 1))
            = unat (?xs ! i) mod 4096"
  proof (intro allI impI)
    fix i
    assume i: "i < N_SAMPLES"
    then have "i div 20 < N_SAMPLES div 20" by (simp add: N_SAMPLES_def)
    then have eq: "?ls ! (i div 20) = q_line ?xs (i div 20)" by simp
    have idx: "i div 20 * 20 + i mod 20 = i" by simp
    have k: "i mod 20 < 20" by simp
    have hi: "unat (?xs ! i) mod 4096 div 64 = unat (?xs ! i) div 64 mod 64"
      by (rule bits_6_to_11)
    from q_line_nth [OF k, of ?xs "i div 20"]
    show "?ls ! (i div 20) ! (2 * (i mod 20)) = base64_alphabet ! (unat (?xs ! i) div 64 mod 64)
        \<and> ?ls ! (i div 20) ! (2 * (i mod 20) + 1) = base64_alphabet ! (unat (?xs ! i) mod 64)
        \<and> decode_pair (?ls ! (i div 20) ! (2 * (i mod 20))) (?ls ! (i div 20) ! (2 * (i mod 20) + 1))
            = unat (?xs ! i) mod 4096"
      unfolding eq idx using decode_q_pair [of "?xs ! i"] hi
      by (simp add: q_pair_chars)
  qed
  from run out' len lines samples show ?thesis
    by (intro exI [of _ s'] exI [of _ ?ls]) blast
qed

theorem q_report_packed_witness:
  "length (adc_samples ((power_on [] [] (\<lambda>_. 0) (\<lambda>_. 0) (\<lambda>_. 0))
                          \<lparr>adc_samples := replicate 3800 0xF123\<rparr>)) = N_SAMPLES
   \<and> (\<exists>s' ls. interpret_command (\<lambda>_. ([], [])) ''q''
                 ((power_on [] [] (\<lambda>_. 0) (\<lambda>_. 0) (\<lambda>_. 0))\<lparr>adc_samples := replicate 3800 0xF123\<rparr>)
                 = Inr s'
        \<and> stdout s' = concat (map (\<lambda>l. l @ [NL]) ls)
        \<and> length ls = 190
        \<and> ls ! 0 ! 0 = CHR ''E'' \<and> ls ! 0 ! 1 = CHR ''j''
        \<and> decode_pair (ls ! 0 ! 0) (ls ! 0 ! 1) = 0x123)"
proof -
  let ?s = "(power_on [] [] (\<lambda>_. 0) (\<lambda>_. 0) (\<lambda>_. 0))\<lparr>adc_samples := replicate 3800 (0xF123 :: 16 word)\<rparr>"
  have len: "length (adc_samples ?s) = N_SAMPLES"
    by (simp add: N_SAMPLES_def)
  from q_report_packed [OF len, of "\<lambda>_. ([], [])" "[]"] obtain s' ls where
    run: "interpret_command (\<lambda>_. ([], [])) ''q'' ?s = Inr s'" and
    out: "stdout s' = stdout ?s @ concat (map (\<lambda>l. l @ [NL]) ls)" and
    cnt: "length ls = N_SAMPLES div 20" and
    smp: "\<forall>i < N_SAMPLES.
          ls ! (i div 20) ! (2 * (i mod 20))
            = base64_alphabet ! (unat (adc_samples ?s ! i) div 64 mod 64)
        \<and> ls ! (i div 20) ! (2 * (i mod 20) + 1)
            = base64_alphabet ! (unat (adc_samples ?s ! i) mod 64)
        \<and> decode_pair (ls ! (i div 20) ! (2 * (i mod 20))) (ls ! (i div 20) ! (2 * (i mod 20) + 1))
            = unat (adc_samples ?s ! i) mod 4096"
    by blast
  have "(0::nat) < N_SAMPLES" by (simp add: N_SAMPLES_def)
  with smp have
    "ls ! (0 div 20) ! (2 * (0 mod 20)) = base64_alphabet ! (unat (adc_samples ?s ! 0) div 64 mod 64)
     \<and> ls ! (0 div 20) ! (2 * (0 mod 20) + 1) = base64_alphabet ! (unat (adc_samples ?s ! 0) mod 64)
     \<and> decode_pair (ls ! (0 div 20) ! (2 * (0 mod 20))) (ls ! (0 div 20) ! (2 * (0 mod 20) + 1))
         = unat (adc_samples ?s ! 0) mod 4096"
    by blast
  then have first: "ls ! 0 ! 0 = CHR ''E'' \<and> ls ! 0 ! 1 = CHR ''j''
     \<and> decode_pair (ls ! 0 ! 0) (ls ! 0 ! 1) = 0x123"
    by (simp add: base64_alphabet_def decode_pair_def)
  have out0: "stdout s' = concat (map (\<lambda>l. l @ [NL]) ls)"
    using out by (simp add: power_on_def)
  have cnt0: "length ls = 190"
    using cnt by (simp add: N_SAMPLES_def)
  from len run out0 cnt0 first show ?thesis by blast
qed

section \<open>The reports only read the Sample Buffer\<close>

lemma cmd_L_keeps [simp]:
  "adc_samples (cmd_L args s) = adc_samples s"
  "msg_bytes (cmd_L args s) = msg_bytes s"
  "i2c_in (cmd_L args s) = i2c_in s"
  by (simp_all add: cmd_L_def Let_def split: option.splits)

lemma cmd_p_keeps [simp]:
  "adc_samples (cmd_p args s) = adc_samples s"
  "override_led (cmd_p args s) = override_led s"
  "led_level (cmd_p args s) = led_level s"
  by (simp_all add: cmd_p_def i2c_write_blocking_def Let_def split: option.splits)

lemma interpret_r:
  assumes "length (adc_samples s) = N_SAMPLES"
  shows "\<exists>s'. interpret_command fp (CHR ''r'' # args) s = Inr s'
     \<and> stdout s' = stdout s
         @ concat (map (\<lambda>j. dec (unat (adc_samples s ! j)) @ [NL]) [0..<N_SAMPLES])
     \<and> adc_samples s' = adc_samples s"
proof -
  let ?s1 = "if override_led s = 0 then gpio_put_LED True s else s"
  have len: "length (adc_samples ?s1) = N_SAMPLES" using assms by simp
  show ?thesis
    unfolding interpret_command_def Let_def
    using r_loop_run [of 0 ?s1, OF _ len]
    by (simp split: if_splits)
qed

lemma interpret_keeps_samples:
  assumes "length (adc_samples s) = N_SAMPLES" and "take 1 cmdStr \<noteq> ''b''"
  shows "\<exists>s'. interpret_command fp cmdStr s = Inr s' \<and> adc_samples s' = adc_samples s"
proof (cases cmdStr)
  case Nil
  then show ?thesis by (simp add: interpret_command_def Let_def NUL_def)
next
  case (Cons c args)
  with assms(2) have nb: "c \<noteq> CHR ''b''" by simp
  consider "c = CHR ''r''" | "c = CHR ''q''" | "c \<noteq> CHR ''r''" "c \<noteq> CHR ''q''" by blast
  then show ?thesis
  proof cases
    case 1
    then show ?thesis using interpret_r [OF assms(1), of fp args] Cons by blast
  next
    case 2
    then show ?thesis using interpret_q [OF assms(1), of fp args] Cons by blast
  next
    case 3
    with nb Cons show ?thesis
      by (simp add: interpret_command_def Let_def adc_read_def split: prod.splits)
  qed
qed

lemma run_commands_keeps_samples:
  assumes "length (adc_samples s) = N_SAMPLES" and "\<forall>c \<in> set cmds. take 1 c \<noteq> ''b''"
  shows "\<exists>s'. run_commands fp cmds s = Inr s' \<and> adc_samples s' = adc_samples s"
  using assms
proof (induction cmds arbitrary: s)
  case Nil
  then show ?case by simp
next
  case (Cons c cmds)
  from Cons.prems have "take 1 c \<noteq> ''b''" by simp
  from interpret_keeps_samples [OF Cons.prems(1) this, of fp] obtain s1 where
    s1: "interpret_command fp c s = Inr s1" "adc_samples s1 = adc_samples s" by blast
  with Cons.prems have "length (adc_samples s1) = N_SAMPLES" by simp
  moreover from Cons.prems have "\<forall>c \<in> set cmds. take 1 c \<noteq> ''b''" by simp
  ultimately obtain s' where "run_commands fp cmds s1 = Inr s'" "adc_samples s' = adc_samples s1"
    using Cons.IH by blast
  with s1 show ?case by simp
qed

text \<open>
  Claim C8.  Take any state of the Sample Buffer and issue \<open>r\<close> (or \<open>q\<close>); then any
  command lines of which none is a \<open>b\<close> command (further reports among them); then
  the same report again.  All of them return, the second report prints exactly what
  the first printed, and the Sample Buffer is the same after each step.
\<close>

theorem report_repeatable:
  assumes "length (adc_samples s) = N_SAMPLES"
    and "code = CHR ''r'' \<or> code = CHR ''q''"
    and "\<forall>c \<in> set between. take 1 c \<noteq> ''b''"
  shows "\<exists>s1 s2 s3 out.
           interpret_command fp (code # args) s = Inr s1 \<and> stdout s1 = stdout s @ out
         \<and> adc_samples s1 = adc_samples s
         \<and> run_commands fp between s1 = Inr s2 \<and> adc_samples s2 = adc_samples s
         \<and> interpret_command fp (code # args') s2 = Inr s3 \<and> stdout s3 = stdout s2 @ out
         \<and> adc_samples s3 = adc_samples s"
proof -
  define report where "report xs =
      (if code = CHR ''r'' then concat (map (\<lambda>j. dec (unat (xs ! j)) @ [NL]) [0..<N_SAMPLES])
       else concat (map (\<lambda>j. q_line xs j @ [NL]) [0..<N_SAMPLES div 20]))" for xs
  have once: "\<exists>t'. interpret_command fp (code # a) t = Inr t'
                \<and> stdout t' = stdout t @ report (adc_samples t) \<and> adc_samples t' = adc_samples t"
    if "length (adc_samples t) = N_SAMPLES" for t a
    using assms(2) interpret_r [OF that, of fp a] interpret_q [OF that, of fp a]
    by (auto simp: report_def)
  from once [OF assms(1), of args] obtain s1 where
    s1: "interpret_command fp (code # args) s = Inr s1"
        "stdout s1 = stdout s @ report (adc_samples s)" "adc_samples s1 = adc_samples s"
    by blast
  then have len1: "length (adc_samples s1) = N_SAMPLES" using assms(1) by simp
  from run_commands_keeps_samples [OF len1 assms(3), of fp] obtain s2 where
    s2: "run_commands fp between s1 = Inr s2" "adc_samples s2 = adc_samples s1" by blast
  then have len2: "length (adc_samples s2) = N_SAMPLES" using len1 by simp
  from once [OF len2, of args'] obtain s3 where
    s3: "interpret_command fp (code # args') s2 = Inr s3"
        "stdout s3 = stdout s2 @ report (adc_samples s2)" "adc_samples s3 = adc_samples s2"
    by blast
  from s1 s2 s3 show ?thesis
    by (intro exI [of _ s1] exI [of _ s2] exI [of _ s3] exI [of _ "report (adc_samples s)"]) simp
qed

theorem report_repeatable_witness:
  "length (adc_samples (power_on [] [] (\<lambda>_. 5) (\<lambda>_. 0) (\<lambda>_. 4))) = N_SAMPLES
   \<and> (\<exists>s1 s2 s3 out.
         interpret_command (\<lambda>_. ([], [])) ''r'' (power_on [] [] (\<lambda>_. 5) (\<lambda>_. 0) (\<lambda>_. 4)) = Inr s1
       \<and> stdout s1 = stdout (power_on [] [] (\<lambda>_. 5) (\<lambda>_. 0) (\<lambda>_. 4)) @ out
       \<and> adc_samples s1 = replicate 3800 0
       \<and> run_commands (\<lambda>_. ([], [])) [''q'', ''L 1'', ''a'', ''r''] s1 = Inr s2
       \<and> adc_samples s2 = replicate 3800 0
       \<and> interpret_command (\<lambda>_. ([], [])) ''r'' s2 = Inr s3
       \<and> stdout s3 = stdout s2 @ out
       \<and> adc_samples s3 = replicate 3800 0)"
proof -
  let ?s = "power_on [] [] (\<lambda>_. 5) (\<lambda>_. 0) (\<lambda>_. 4)"
  have len: "length (adc_samples ?s) = N_SAMPLES"
    by (simp add: power_on_def)
  have rq: "CHR ''r'' = CHR ''r'' \<or> CHR ''r'' = CHR ''q''"
    by simp
  have nob: "\<forall>c \<in> set [''q'', ''L 1'', ''a'', ''r'']. take 1 c \<noteq> ''b''"
    by simp
  have buf: "adc_samples ?s = replicate 3800 0"
    by (simp add: power_on_def N_SAMPLES_def)
  from report_repeatable [OF len rq nob, of "\<lambda>_. ([], [])" "[]" "[]"] len show ?thesis
    unfolding buf by blast
qed

section \<open>The command code in front of the response\<close>

lemma adc_capture_loop_keeps:
  "adc_capture_loop count i s = Inr s' \<Longrightarrow> stdout s' = stdout s \<and> override_led s' = override_led s"
proof (induction count i s rule: adc_capture_loop.induct)
  case (1 count i s)
  show ?case
  proof (cases "i < count")
    case True
    with "1.prems" obtain v vs where f: "fifo_in s = v # vs" and il: "i < length (adc_samples s)"
      by (subst (asm) adc_capture_loop.simps) (auto split: list.splits if_splits)
    with True "1.prems" have
      "adc_capture_loop count (i + 1) (s\<lparr>adc_samples := (adc_samples s)[i := v], fifo_in := vs,
                       trace := trace s @ [FifoGet v]\<rparr>) = Inr s'"
      by (subst (asm) adc_capture_loop.simps) simp
    from "1.IH" [OF True f il this] show ?thesis by simp
  next
    case False
    with "1.prems" show ?thesis by (subst (asm) adc_capture_loop.simps) simp
  qed
qed

lemma cmd_b_stdout:
  assumes "cmd_b fp s = Inr s'"
  shows "\<exists>t. stdout s' = stdout s @ ''b '' @ fst (fp (adc_samples s')) @ '' '' @ snd (fp (adc_samples s')) @ '' '' @ dec t @ [NL]
    \<and> override_led s' = override_led s"
  using assms
  by (auto simp: cmd_b_def wait_for_ICG_def time_us_32_def adc_capture_def Let_def
      split: sum.splits prod.splits dest!: adc_capture_loop_keeps)

lemma cmd_L_stdout:
  "\<exists>body. stdout (cmd_L args s) = stdout s @ CHR ''L'' # CHR '' '' # body @ [NL] \<and> NL \<notin> set body"
proof (cases "strtok args sep_tok")
  case None
  then show ?thesis
    by (intro exI [of _ "''error: no value''"]) (simp add: cmd_L_def NL_def)
next
  case (Some a)
  then obtain token saved where "strtok args sep_tok = Some (token, saved)" by (cases a) simp
  then show ?thesis
    by (intro exI [of _ "dec (unat (ucast ((word_of_int (atoi token) :: 32 word) AND 1) :: 8 word))"])
       (simp add: cmd_L_def Let_def NL_notin_dec)
qed

lemma cmd_p_stdout:
  "\<exists>body. stdout (cmd_p args s) = stdout s @ CHR ''p'' # CHR '' '' # body @ [NL] \<and> NL \<notin> set body"
proof (cases "strtok args sep_tok")
  case None
  then show ?thesis
    by (intro exI [of _ "''error: no value for us_SH (nor us_ICG)''"]) (simp add: cmd_p_def NL_def)
next
  case (Some a)
  then obtain token saved where t1: "strtok args sep_tok = Some (token, saved)" by (cases a) simp
  show ?thesis
  proof (cases "strtok saved sep_tok")
    case None
    with t1 show ?thesis
      by (intro exI [of _ "''error: no value for us_ICG''"]) (simp add: cmd_p_def NL_def)
  next
    case (Some b)
    then obtain token2 saved2 where t2: "strtok saved sep_tok = Some (token2, saved2)" by (cases b) simp
    show ?thesis
    proof (cases "next_value (i2c_in s) = 4")
      case True
      with t1 t2 show ?thesis
        by (intro exI [of _ "dec (unat (word_of_int (atoi token) :: 16 word)) @ '' ''
                              @ dec (unat (word_of_int (atoi token2) :: 16 word))"])
           (simp add: cmd_p_def Let_def i2c_write_blocking_def NL_notin_dec, simp add: NL_def)
    next
      case False
      with t1 t2 show ?thesis
        by (intro exI [of _ "''error: unsuccessful I2C communication''"])
           (simp add: cmd_p_def Let_def i2c_write_blocking_def NL_def)
    qed
  qed
qed

lemma dec_0: "dec 0 = ''0''"
  by code_simp

lemma single_line_response:
  assumes "c \<noteq> CHR ''r''" and "c \<noteq> CHR ''q''"
    and "\<forall>xs. NL \<notin> set (fst (fp xs)) \<and> NL \<notin> set (snd (fp xs))"
  shows "(c \<noteq> CHR ''b'' \<longrightarrow> (\<exists>s'. interpret_command fp (c # args) s = Inr s'))
       \<and> (\<forall>s'. interpret_command fp (c # args) s = Inr s' \<longrightarrow>
            (\<exists>body. stdout s' = stdout s @ c # CHR '' '' # body @ [NL] \<and> NL \<notin> set body))"
proof (intro conjI allI impI)
  assume "c \<noteq> CHR ''b''"
  with assms(1,2) show "\<exists>s'. interpret_command fp (c # args) s = Inr s'"
    by (simp add: interpret_command_def Let_def split: prod.splits)
next
  fix s'
  assume run: "interpret_command fp (c # args) s = Inr s'"
  let ?s1 = "if override_led s = 0 then gpio_put_LED True s else s"
  have s1: "stdout ?s1 = stdout s" by simp
  consider (v) "c = CHR ''v''" | (L) "c = CHR ''L''" | (a) "c = CHR ''a''" | (b) "c = CHR ''b''"
    | (p) "c = CHR ''p''"
    | (other) "c \<noteq> CHR ''v''" "c \<noteq> CHR ''L''" "c \<noteq> CHR ''a''" "c \<noteq> CHR ''b''" "c \<noteq> CHR ''p''"
    by blast
  then show "\<exists>body. stdout s' = stdout s @ c # CHR '' '' # body @ [NL] \<and> NL \<notin> set body"
  proof cases
    case v
    with run show ?thesis
      by (intro exI [of _ VERSION_STR])
         (auto simp: interpret_command_def Let_def VERSION_STR_def NL_def split: if_splits)
  next
    case L
    from cmd_L_stdout [of args ?s1] obtain body where
      "stdout (cmd_L args ?s1) = stdout ?s1 @ CHR ''L'' # CHR '' '' # body @ [NL]" "NL \<notin> set body"
      by blast
    with run L show ?thesis
      by (intro exI [of _ body]) (auto simp: interpret_command_def Let_def split: if_splits)
  next
    case a
    with run show ?thesis
      by (intro exI [of _ "dec (unat (next_value (adc_in s)))"])
         (auto simp: interpret_command_def Let_def adc_read_def NL_notin_dec split: if_splits)
  next
    case b
    with run obtain s3 where s3: "cmd_b fp ?s1 = Inr s3" and s': "stdout s' = stdout s3"
      by (auto simp: interpret_command_def Let_def split: if_splits sum.splits)
    from cmd_b_stdout [OF s3] obtain t where
      "stdout s3 = stdout ?s1 @ ''b '' @ fst (fp (adc_samples s3)) @ '' ''
                     @ snd (fp (adc_samples s3)) @ '' '' @ dec t @ [NL]"
      by blast
    with s' s1 b assms(3) show ?thesis
      by (intro exI [of _ "fst (fp (adc_samples s3)) @ '' '' @ snd (fp (adc_samples s3)) @ '' '' @ dec t"])
         (simp add: NL_notin_dec, simp add: NL_def)
  next
    case p
    from cmd_p_stdout [of args ?s1] obtain body where
      "stdout (cmd_p args ?s1) = stdout ?s1 @ CHR ''p'' # CHR '' '' # body @ [NL]" "NL \<notin> set body"
      by blast
    with run p show ?thesis
      by (intro exI [of _ body]) (auto simp: interpret_command_def Let_def split: if_splits)
  next
    case other
    with run assms(1,2) show ?thesis
      by (intro exI [of _ "''error: Unknown command''"])
         (auto simp: interpret_command_def Let_def NL_def split: if_splits)
  qed
qed


lemma space_notin_dec: "CHR '' '' \<notin> set (dec n)"
  using dec_digits [of "CHR '' ''" n] by (auto simp: isdigit_def)

lemma space_notin_q_line: "CHR '' '' \<notin> set (q_line xs j)"
proof -
  have "CHR '' '' \<notin> set base64_alphabet"
    by (simp add: base64_alphabet_def)
  with set_q_line [of xs j] show ?thesis by blast
qed

text \<open>
  Claim C5, as the code has it.  For a command line whose first character \<open>c\<close> is
  neither \<open>r\<close> nor \<open>q\<close>, the response is one line: \<open>c\<close>, a space, the rest, a line
  break.  Every such command except \<open>b\<close> returns; \<open>b\<close> is covered whenever it
  returns.  The texts printed by \<open>%g\<close> are a parameter, assumed free of line breaks.
  The two reports return and print lines without a command code, whatever the Sample
  Buffer holds: line \<open>j\<close> of the \<open>r\<close> report is the decimal text of sample \<open>j\<close>, not
  empty and digits only, and line \<open>j\<close> of the \<open>q\<close> report is 40 characters of the
  alphabet; no such line contains a space.
\<close>

theorem response_begins_with_code:
  "(c \<noteq> CHR ''r'' \<and> c \<noteq> CHR ''q''
      \<and> (\<forall>xs. NL \<notin> set (fst (fp xs)) \<and> NL \<notin> set (snd (fp xs))) \<longrightarrow>
      (c \<noteq> CHR ''b'' \<longrightarrow> (\<exists>s'. interpret_command fp (c # args) s = Inr s'))
    \<and> (\<forall>s'. interpret_command fp (c # args) s = Inr s' \<longrightarrow>
         (\<exists>body. stdout s' = stdout s @ c # CHR '' '' # body @ [NL] \<and> NL \<notin> set body)))
   \<and> (length (adc_samples s) = N_SAMPLES \<longrightarrow>
      (\<exists>s'. interpret_command fp (CHR ''r'' # args) s = Inr s'
         \<and> stdout s' = stdout s
             @ concat (map (\<lambda>j. dec (unat (adc_samples s ! j)) @ [NL]) [0..<N_SAMPLES]))
    \<and> (\<forall>j < N_SAMPLES. dec (unat (adc_samples s ! j)) \<noteq> []
         \<and> (\<forall>ch \<in> set (dec (unat (adc_samples s ! j))). isdigit ch)
         \<and> CHR '' '' \<notin> set (dec (unat (adc_samples s ! j))))
    \<and> (\<exists>s'. interpret_command fp (CHR ''q'' # args) s = Inr s'
         \<and> stdout s' = stdout s
             @ concat (map (\<lambda>j. q_line (adc_samples s) j @ [NL]) [0..<N_SAMPLES div 20]))
    \<and> (\<forall>j < N_SAMPLES div 20. length (q_line (adc_samples s) j) = 40
         \<and> set (q_line (adc_samples s) j) \<subseteq> set base64_alphabet
         \<and> CHR '' '' \<notin> set (q_line (adc_samples s) j)))"
proof -
  have single: "c \<noteq> CHR ''r'' \<and> c \<noteq> CHR ''q''
      \<and> (\<forall>xs. NL \<notin> set (fst (fp xs)) \<and> NL \<notin> set (snd (fp xs))) \<longrightarrow>
      (c \<noteq> CHR ''b'' \<longrightarrow> (\<exists>s'. interpret_command fp (c # args) s = Inr s'))
    \<and> (\<forall>s'. interpret_command fp (c # args) s = Inr s' \<longrightarrow>
         (\<exists>body. stdout s' = stdout s @ c # CHR '' '' # body @ [NL] \<and> NL \<notin> set body))"
  proof (rule impI)
    assume "c \<noteq> CHR ''r'' \<and> c \<noteq> CHR ''q''
      \<and> (\<forall>xs. NL \<notin> set (fst (fp xs)) \<and> NL \<notin> set (snd (fp xs)))"
    then have h: "c \<noteq> CHR ''r''" "c \<noteq> CHR ''q''"
        "\<forall>xs. NL \<notin> set (fst (fp xs)) \<and> NL \<notin> set (snd (fp xs))"
      by simp_all
    from single_line_response [OF h, of args s]
    show "(c \<noteq> CHR ''b'' \<longrightarrow> (\<exists>s'. interpret_command fp (c # args) s = Inr s'))
      \<and> (\<forall>s'. interpret_command fp (c # args) s = Inr s' \<longrightarrow>
           (\<exists>body. stdout s' = stdout s @ c # CHR '' '' # body @ [NL] \<and> NL \<notin> set body))" .
  qed
  have reports: "length (adc_samples s) = N_SAMPLES \<longrightarrow>
      (\<exists>s'. interpret_command fp (CHR ''r'' # args) s = Inr s'
         \<and> stdout s' = stdout s
             @ concat (map (\<lambda>j. dec (unat (adc_samples s ! j)) @ [NL]) [0..<N_SAMPLES]))
    \<and> (\<forall>j < N_SAMPLES. dec (unat (adc_samples s ! j)) \<noteq> []
         \<and> (\<forall>ch \<in> set (dec (unat (adc_samples s ! j))). isdigit ch)
         \<and> CHR '' '' \<notin> set (dec (unat (adc_samples s ! j))))
    \<and> (\<exists>s'. interpret_command fp (CHR ''q'' # args) s = Inr s'
         \<and> stdout s' = stdout s
             @ concat (map (\<lambda>j. q_line (adc_samples s) j @ [NL]) [0..<N_SAMPLES div 20]))
    \<and> (\<forall>j < N_SAMPLES div 20. length (q_line (adc_samples s) j) = 40
         \<and> set (q_line (adc_samples s) j) \<subseteq> set base64_alphabet
         \<and> CHR '' '' \<notin> set (q_line (adc_samples s) j))"
  proof (intro impI conjI)
    assume len: "length (adc_samples s) = N_SAMPLES"
    from interpret_r [OF len, of fp args]
    show "\<exists>s'. interpret_command fp (CHR ''r'' # args) s = Inr s'
         \<and> stdout s' = stdout s
             @ concat (map (\<lambda>j. dec (unat (adc_samples s ! j)) @ [NL]) [0..<N_SAMPLES])"
      by blast
  next
    show "\<forall>j < N_SAMPLES. dec (unat (adc_samples s ! j)) \<noteq> []
         \<and> (\<forall>ch \<in> set (dec (unat (adc_samples s ! j))). isdigit ch)
         \<and> CHR '' '' \<notin> set (dec (unat (adc_samples s ! j)))"
      using dec_not_Nil dec_digits space_notin_dec by blast
  next
    assume len: "length (adc_samples s) = N_SAMPLES"
    from interpret_q [OF len, of fp args]
    show "\<exists>s'. interpret_command fp (CHR ''q'' # args) s = Inr s'
         \<and> stdout s' = stdout s
             @ concat (map (\<lambda>j. q_line (adc_samples s) j @ [NL]) [0..<N_SAMPLES div 20])"
      by blast
  next
    show "\<forall>j < N_SAMPLES div 20. length (q_line (adc_samples s) j) = 40
         \<and> set (q_line (adc_samples s) j) \<subseteq> set base64_alphabet
         \<and> CHR '' '' \<notin> set (q_line (adc_samples s) j)"
      using length_q_line set_q_line space_notin_q_line by blast
  qed
  from single reports show ?thesis
    by (rule conjI)
qed

theorem response_begins_with_code_witness:
  "(\<exists>s' body. interpret_command (\<lambda>_. (''1.5'', ''0'')) ''a'' (power_on [] [] (\<lambda>_. 7) (\<lambda>_. 0) (\<lambda>_. 4)) = Inr s'
      \<and> stdout s' = stdout (power_on [] [] (\<lambda>_. 7) (\<lambda>_. 0) (\<lambda>_. 4)) @ CHR ''a'' # CHR '' '' # body @ [NL]
      \<and> NL \<notin> set body)
   \<and> (\<exists>s'. interpret_command (\<lambda>_. (''1.5'', ''0'')) ''r'' (power_on [] [] (\<lambda>_. 7) (\<lambda>_. 0) (\<lambda>_. 4)) = Inr s'
      \<and> stdout s' = concat (map (\<lambda>j. ''0'' @ [NL]) [0..<N_SAMPLES]))
   \<and> isdigit (CHR ''0'')
   \<and> (\<exists>s'. interpret_command (\<lambda>_. (''1.5'', ''0'')) ''q'' (power_on [] [] (\<lambda>_. 7) (\<lambda>_. 0) (\<lambda>_. 4)) = Inr s'
      \<and> stdout s' = concat (map (\<lambda>j. q_line (replicate N_SAMPLES 0) j @ [NL]) [0..<N_SAMPLES div 20]))
   \<and> length (q_line (replicate N_SAMPLES 0) 0) = 40"
proof -
  let ?fp = "\<lambda>_ :: 16 word list. (''1.5'', ''0'')"
  let ?s = "power_on [] [] (\<lambda>_. 7) (\<lambda>_. 0) (\<lambda>_. 4)"
  have h: "CHR ''a'' \<noteq> CHR ''r'' \<and> CHR ''a'' \<noteq> CHR ''q''
      \<and> (\<forall>xs :: 16 word list. NL \<notin> set (fst (?fp xs)) \<and> NL \<notin> set (snd (?fp xs)))"
    by (simp add: NL_def)
  have h4: "CHR ''a'' \<noteq> CHR ''b''"
    by simp
  have buf: "adc_samples ?s = replicate N_SAMPLES 0"
    by (simp add: power_on_def)
  have out0: "stdout ?s = []"
    by (simp add: power_on_def)
  have lines: "map (\<lambda>j. dec (unat (replicate N_SAMPLES (0 :: 16 word) ! j)) @ [NL]) [0..<N_SAMPLES]
      = map (\<lambda>j. ''0'' @ [NL]) [0..<N_SAMPLES]"
    by (rule map_cong) (simp_all add: dec_0)
  have j0: "0 < N_SAMPLES" and k0: "0 < N_SAMPLES div 20"
    by (simp_all add: N_SAMPLES_def)
  have len0: "length (replicate N_SAMPLES (0 :: 16 word)) = N_SAMPLES"
    by simp
  note inst = response_begins_with_code [of "CHR ''a''" ?fp "[]" ?s, unfolded buf out0 lines]
  from inst [THEN conjunct1] h have "(CHR ''a'' \<noteq> CHR ''b'' \<longrightarrow> (\<exists>s'. interpret_command ?fp ''a'' ?s = Inr s'))
    \<and> (\<forall>s'. interpret_command ?fp ''a'' ?s = Inr s' \<longrightarrow>
         (\<exists>body. stdout s' = [] @ CHR ''a'' # CHR '' '' # body @ [NL] \<and> NL \<notin> set body))"
    by (rule mp)
  with h4 have a: "\<exists>s' body. interpret_command ?fp ''a'' ?s = Inr s'
      \<and> stdout s' = stdout ?s @ CHR ''a'' # CHR '' '' # body @ [NL] \<and> NL \<notin> set body"
    unfolding out0 by blast
  note reports = mp [OF inst [THEN conjunct2] len0]
  from reports [THEN conjunct1] have r: "\<exists>s'. interpret_command ?fp ''r'' ?s = Inr s'
      \<and> stdout s' = concat (map (\<lambda>j. ''0'' @ [NL]) [0..<N_SAMPLES])"
    by simp
  from reports [THEN conjunct2, THEN conjunct1] j0
  have "\<forall>ch \<in> set (dec (unat (replicate N_SAMPLES (0 :: 16 word) ! 0))). isdigit ch"
    by blast
  then have d0: "isdigit (CHR ''0'')"
    using j0 by (simp add: dec_0)
  from reports [THEN conjunct2, THEN conjunct2, THEN conjunct1]
  have q: "\<exists>s'. interpret_command ?fp ''q'' ?s = Inr s'
      \<and> stdout s' = concat (map (\<lambda>j. q_line (replicate N_SAMPLES 0) j @ [NL]) [0..<N_SAMPLES div 20])"
    by simp
  from reports [THEN conjunct2, THEN conjunct2, THEN conjunct2] k0
  have l: "length (q_line (replicate N_SAMPLES 0) 0) = 40"
    by blast
  from a r d0 q l show ?thesis by blast
qed

text \<open>
  The claim as written fails for the two reports: after power-on (the buffer holds
  zeros) the first line of the \<open>r\<close> report is \<open>0\<close> and the \<open>q\<close> report starts with
  \<open>A\<close>; neither line starts with the command code.
\<close>

theorem report_lines_carry_no_code:
  "map_sum id (\<lambda>s'. take 2 (stdout s'))
     (interpret_command (\<lambda>_. ([], [])) ''r'' (power_on [] [] (\<lambda>_. 0) (\<lambda>_. 0) (\<lambda>_. 0)))
     = Inr (''0'' @ [NL])
   \<and> map_sum id (\<lambda>s'. take 1 (stdout s'))
     (interpret_command (\<lambda>_. ([], [])) ''q'' (power_on [] [] (\<lambda>_. 0) (\<lambda>_. 0) (\<lambda>_. 0)))
     = Inr ''A''"
proof -
  let ?s = "power_on [] [] (\<lambda>_. 0) (\<lambda>_. 0) (\<lambda>_. 0)"
  have len: "length (adc_samples ?s) = N_SAMPLES"
    by (simp add: power_on_def)
  have first: "adc_samples ?s ! 0 = 0"
    by (simp add: power_on_def N_SAMPLES_def)
  have out0: "stdout ?s = []"
    by (simp add: power_on_def)
  from interpret_r [OF len, of "\<lambda>_. ([], [])" "[]"] obtain s1 where
    r: "interpret_command (\<lambda>_. ([], [])) ''r'' ?s = Inr s1"
       "stdout s1 = stdout ?s @ concat (map (\<lambda>j. dec (unat (adc_samples ?s ! j)) @ [NL]) [0..<N_SAMPLES])"
    by blast
  have "[0..<N_SAMPLES] = 0 # [Suc 0..<N_SAMPLES]"
    by (rule upt_conv_Cons) (simp add: N_SAMPLES_def)
  with r(2) first out0 have r_first: "take 2 (stdout s1) = ''0'' @ [NL]"
    by (simp add: dec_0)
  from interpret_q [OF len, of "\<lambda>_. ([], [])" "[]"] obtain s2 where
    q: "interpret_command (\<lambda>_. ([], [])) ''q'' ?s = Inr s2"
       "stdout s2 = stdout ?s @ concat (map (\<lambda>j. q_line (adc_samples ?s) j @ [NL]) [0..<N_SAMPLES div 20])"
    by blast
  have lines: "[0..<N_SAMPLES div 20] = 0 # [Suc 0..<N_SAMPLES div 20]"
    by (rule upt_conv_Cons) (simp add: N_SAMPLES_def)
  have "[0..<20] = 0 # [Suc 0..<20]"
    by (rule upt_conv_Cons) simp
  then have "q_line (adc_samples ?s) 0
      = q_pair 0 @ concat (map (\<lambda>k. q_pair (adc_samples ?s ! (0 * 20 + k))) [Suc 0..<20])"
    using first by (simp add: q_line_def)
  then have "take 1 (q_line (adc_samples ?s) 0) = ''A''"
    by (simp add: q_pair_chars base64_alphabet_def)
  with lines q(2) out0 have q_first: "take 1 (stdout s2) = ''A''"
    using length_q_line [of "adc_samples ?s" 0] by simp
  from r(1) q(1) r_first q_first show ?thesis
    by simp
qed

section \<open>The \<open>L\<close> command\<close>

lemma power_on_led_idle: "led_idle (power_on icg fifo adc timer i2c)"
  by (simp add: led_idle_def power_on_def)

lemma interpret_command_led_idle:
  "interpret_command fp cmdStr s = Inr s' \<Longrightarrow> led_idle s'"
  by (auto simp: interpret_command_def Let_def led_idle_def split: sum.splits if_splits)

lemma interpret_L_no_token:
  assumes "tokens args = []"
  shows "\<exists>s'. interpret_command fp (CHR ''L'' # args) s = Inr s'
     \<and> stdout s' = stdout s @ ''L error: no value'' @ [NL]
     \<and> override_led s' = override_led s
     \<and> led_level s' = (if override_led s = 0 then False else led_level s)"
proof -
  from assms have "strtok args sep_tok = None" by (simp add: tokens_Nil_iff)
  then show ?thesis
    by (simp add: interpret_command_def Let_def cmd_L_def)
qed

lemma interpret_L_token:
  assumes "tokens args = token # rest"
  shows "\<exists>s'. interpret_command fp (CHR ''L'' # args) s = Inr s'
     \<and> stdout s' = stdout s
          @ ''L '' @ dec (unat (ucast ((word_of_int (atoi token) :: 32 word) AND 1) :: 8 word)) @ [NL]
     \<and> override_led s' = ucast ((word_of_int (atoi token) :: 32 word) AND 1)
     \<and> led_level s' = ((ucast ((word_of_int (atoi token) :: 32 word) AND 1) :: 8 word) \<noteq> 0)"
proof -
  from assms obtain saved where "strtok args sep_tok = Some (token, saved)"
    by (auto simp: tokens_Cons_iff)
  then show ?thesis
    by (simp add: interpret_command_def Let_def cmd_L_def)
qed

lemma dec_bit: "dec (nat (v mod 2)) = (if v mod 2 = 1 then ''1'' else ''0'')"
proof -
  have "dec 0 = ''0''" "dec 1 = ''1''" by code_simp+
  moreover have "v mod 2 = 0 \<or> v mod 2 = 1" by presburger
  ultimately show ?thesis by auto
qed

text \<open>
  Claim C7.  In a state in which the LED is dark unless overridden (every state between
  two commands, by \<open>power_on_led_idle\<close> and \<open>interpret_command_led_idle\<close>): without a
  token the \<open>L\<close> command answers \<open>L error: no value\<close> and the LED output and the
  override flag are afterwards what they were; with a token that \<open>atoi\<close> reads as \<open>v\<close>
  it answers \<open>L 1\<close> or \<open>L 0\<close> according to \<open>v mod 2\<close>, and the LED output and the
  override flag are \<open>v mod 2\<close>.
\<close>

theorem L_command:
  assumes "led_idle s"
  shows "(tokens args = [] \<longrightarrow>
            (\<exists>s'. interpret_command fp (CHR ''L'' # args) s = Inr s'
                \<and> stdout s' = stdout s @ ''L error: no value'' @ [NL]
                \<and> led_level s' = led_level s \<and> override_led s' = override_led s))
       \<and> (\<forall>token rest. tokens args = token # rest \<longrightarrow>
            (\<exists>s'. interpret_command fp (CHR ''L'' # args) s = Inr s'
                \<and> stdout s' = stdout s @ ''L '' @ (if atoi token mod 2 = 1 then ''1'' else ''0'') @ [NL]
                \<and> led_level s' = (atoi token mod 2 = 1)
                \<and> uint (override_led s') = atoi token mod 2))"
proof (intro conjI allI impI)
  assume "tokens args = []"
  from interpret_L_no_token [OF this, of fp s] assms
  show "\<exists>s'. interpret_command fp (CHR ''L'' # args) s = Inr s'
                \<and> stdout s' = stdout s @ ''L error: no value'' @ [NL]
                \<and> led_level s' = led_level s \<and> override_led s' = override_led s"
    by (auto simp: led_idle_def split: if_splits)
next
  fix token rest
  assume "tokens args = token # rest"
  from interpret_L_token [OF this, of fp s] obtain s' where
    s': "interpret_command fp (CHR ''L'' # args) s = Inr s'"
      "stdout s' = stdout s
          @ ''L '' @ dec (unat (ucast ((word_of_int (atoi token) :: 32 word) AND 1) :: 8 word)) @ [NL]"
      "override_led s' = ucast ((word_of_int (atoi token) :: 32 word) AND 1)"
      "led_level s' = ((ucast ((word_of_int (atoi token) :: 32 word) AND 1) :: 8 word) \<noteq> 0)"
    by blast
  have "uint (override_led s') = int (unat (override_led s'))" by simp
  also have "\<dots> = atoi token mod 2" unfolding s'(3) unat_lsb by simp
  finally have ov: "uint (override_led s') = atoi token mod 2" .
  from s' ov show "\<exists>s'. interpret_command fp (CHR ''L'' # args) s = Inr s'
                \<and> stdout s' = stdout s @ ''L '' @ (if atoi token mod 2 = 1 then ''1'' else ''0'') @ [NL]
                \<and> led_level s' = (atoi token mod 2 = 1)
                \<and> uint (override_led s') = atoi token mod 2"
    unfolding unat_lsb lsb_nonzero dec_bit by blast
qed

theorem L_command_witness:
  "(\<exists>s'. interpret_command (\<lambda>_. ([], [])) ''L'' (power_on [] [] (\<lambda>_. 7) (\<lambda>_. 0) (\<lambda>_. 4)) = Inr s'
         \<and> stdout s' = ''L error: no value'' @ [NL] \<and> \<not> led_level s' \<and> override_led s' = 0)
   \<and> (\<exists>s'. interpret_command (\<lambda>_. ([], [])) ''L 5'' (power_on [] [] (\<lambda>_. 7) (\<lambda>_. 0) (\<lambda>_. 4)) = Inr s'
         \<and> stdout s' = ''L 1'' @ [NL] \<and> led_level s' \<and> uint (override_led s') = 1)
   \<and> (\<exists>s'. interpret_command (\<lambda>_. ([], [])) ''L 4'' (power_on [] [] (\<lambda>_. 7) (\<lambda>_. 0) (\<lambda>_. 4)) = Inr s'
         \<and> stdout s' = ''L 0'' @ [NL] \<and> \<not> led_level s' \<and> uint (override_led s') = 0)"
proof -
  let ?s = "power_on [] [] (\<lambda>_. 7) (\<lambda>_. 0) (\<lambda>_. 4)"
  let ?fp = "\<lambda>_ :: 16 word list. ([] :: string, [] :: string)"
  have idle: "led_idle ?s"
    by (rule power_on_led_idle)
  have t0: "tokens [] = []" and t5: "tokens '' 5'' = [''5'']" and t4: "tokens '' 4'' = [''4'']"
    by code_simp+
  have v5: "atoi ''5'' = 5" and v4: "atoi ''4'' = 4"
    by code_simp+
  have init: "stdout ?s = []" "led_level ?s = False" "override_led ?s = 0"
    by (simp_all add: power_on_def)
  from L_command [OF idle, of "[]" ?fp] t0 init
  have a: "\<exists>s'. interpret_command ?fp ''L'' ?s = Inr s'
         \<and> stdout s' = ''L error: no value'' @ [NL] \<and> \<not> led_level s' \<and> override_led s' = 0"
    by auto
  from L_command [OF idle, of "'' 5''" ?fp] t5 v5 init
  have b: "\<exists>s'. interpret_command ?fp ''L 5'' ?s = Inr s'
         \<and> stdout s' = ''L 1'' @ [NL] \<and> led_level s' \<and> uint (override_led s') = 1"
    by auto
  from L_command [OF idle, of "'' 4''" ?fp] t4 v4 init
  have c: "\<exists>s'. interpret_command ?fp ''L 4'' ?s = Inr s'
         \<and> stdout s' = ''L 0'' @ [NL] \<and> \<not> led_level s' \<and> uint (override_led s') = 0"
    by auto
  from a b c show ?thesis by blast
qed

section \<open>The \<open>p\<close> command without its values\<close>

lemma interpret_p_no_token:
  assumes "tokens args = []"
  shows "\<exists>s'. interpret_command fp (CHR ''p'' # args) s = Inr s'
     \<and> stdout s' = stdout s @ ''p error: no value for us_SH (nor us_ICG)'' @ [NL]
     \<and> trace s' = trace s @ (if override_led s = 0 then [LedPut True, LedPut False] else [])
     \<and> i2c_in s' = i2c_in s \<and> msg_bytes s' = msg_bytes s"
proof -
  from assms have "strtok args sep_tok = None" by (simp add: tokens_Nil_iff)
  then show ?thesis
    by (simp add: interpret_command_def Let_def cmd_p_def)
qed

lemma interpret_p_one_token:
  assumes "tokens args = [token]"
  shows "\<exists>s'. interpret_command fp (CHR ''p'' # args) s = Inr s'
     \<and> stdout s' = stdout s @ ''p error: no value for us_ICG'' @ [NL]
     \<and> trace s' = trace s @ (if override_led s = 0 then [LedPut True, LedPut False] else [])
     \<and> i2c_in s' = i2c_in s \<and> msg_bytes s' = msg_bytes s"
proof -
  from assms obtain saved where "strtok args sep_tok = Some (token, saved)" "tokens saved = []"
    by (auto simp: tokens_Cons_iff)
  then have "strtok args sep_tok = Some (token, saved)" "strtok saved sep_tok = None"
    by (simp_all add: tokens_Nil_iff)
  then show ?thesis
    by (simp add: interpret_command_def Let_def cmd_p_def)
qed

text \<open>
  Claim C6.  When nothing but separators follows the code, the \<open>p\<close> command answers
  \<open>p error: no value for us_SH (nor us_ICG)\<close>; with exactly one token it answers
  \<open>p error: no value for us_ICG\<close>.  In both cases the command returns to the loop of
  \<open>main\<close>, the only hardware calls are those that blink the LED (none when the LED is
  overridden), so no bus write is made, and the message bytes are untouched.
\<close>

theorem p_missing_values:
  "(tokens args = [] \<longrightarrow>
      (\<exists>s'. interpret_command fp (CHR ''p'' # args) s = Inr s'
          \<and> stdout s' = stdout s @ ''p error: no value for us_SH (nor us_ICG)'' @ [NL]
          \<and> trace s' = trace s @ (if override_led s = 0 then [LedPut True, LedPut False] else [])
          \<and> i2c_in s' = i2c_in s \<and> msg_bytes s' = msg_bytes s))
   \<and> (\<forall>token. tokens args = [token] \<longrightarrow>
      (\<exists>s'. interpret_command fp (CHR ''p'' # args) s = Inr s'
          \<and> stdout s' = stdout s @ ''p error: no value for us_ICG'' @ [NL]
          \<and> trace s' = trace s @ (if override_led s = 0 then [LedPut True, LedPut False] else [])
          \<and> i2c_in s' = i2c_in s \<and> msg_bytes s' = msg_bytes s))"
  using interpret_p_no_token [of args fp s] interpret_p_one_token [of args _ fp s] by blast

theorem p_missing_values_witness:
  "(\<exists>s'. interpret_command (\<lambda>_. ([], [])) ''p'' (power_on [] [] (\<lambda>_. 7) (\<lambda>_. 0) (\<lambda>_. 4)) = Inr s'
       \<and> stdout s' = ''p error: no value for us_SH (nor us_ICG)'' @ [NL]
       \<and> trace s' = [LedPut True, LedPut False])
   \<and> (\<exists>s'. interpret_command (\<lambda>_. ([], [])) ''p 300'' (power_on [] [] (\<lambda>_. 7) (\<lambda>_. 0) (\<lambda>_. 4)) = Inr s'
       \<and> stdout s' = ''p error: no value for us_ICG'' @ [NL]
       \<and> trace s' = [LedPut True, LedPut False])"
proof -
  let ?s = "power_on [] [] (\<lambda>_. 7) (\<lambda>_. 0) (\<lambda>_. 4)"
  let ?fp = "\<lambda>_ :: 16 word list. ([] :: string, [] :: string)"
  have t0: "tokens [] = []" and t1: "tokens '' 300'' = [''300'']"
    by code_simp+
  have init: "stdout ?s = []" "trace ?s = []" "override_led ?s = 0"
    by (simp_all add: power_on_def)
  from p_missing_values [of "[]" ?fp ?s] t0 init
  have a: "\<exists>s'. interpret_command ?fp ''p'' ?s = Inr s'
       \<and> stdout s' = ''p error: no value for us_SH (nor us_ICG)'' @ [NL]
       \<and> trace s' = [LedPut True, LedPut False]"
    by auto
  from p_missing_values [of "'' 300''" ?fp ?s] t1 init
  have b: "\<exists>s'. interpret_command ?fp ''p 300'' ?s = Inr s'
       \<and> stdout s' = ''p error: no value for us_ICG'' @ [NL]
       \<and> trace s' = [LedPut True, LedPut False]"
    by auto
  from a b show ?thesis by blast
qed

section \<open>The \<open>p\<close> command with both values\<close>

lemma interpret_p_two_tokens:
  assumes "tokens args = token # token2 # rest"
  shows "\<exists>s'. interpret_command fp (CHR ''p'' # args) s = Inr s'
     \<and> msg_bytes s'
          = [ucast (drop_bit 8 ((word_of_int (atoi token) :: 16 word) AND 0xff00)),
             ucast ((word_of_int (atoi token) :: 16 word) AND 0x00ff),
             ucast (drop_bit 8 ((word_of_int (atoi token2) :: 16 word) AND 0xff00)),
             ucast ((word_of_int (atoi token2) :: 16 word) AND 0x00ff)]
     \<and> trace s' = trace s @ (if override_led s = 0 then [LedPut True] else [])
          @ [I2cWrite 0x51 (msg_bytes s') 4 False (next_value (i2c_in s))]
          @ (if override_led s = 0 then [LedPut False] else [])
     \<and> i2c_in s' = later_values (i2c_in s)
     \<and> stdout s' = stdout s
          @ (if next_value (i2c_in s) \<noteq> 4 then ''p error: unsuccessful I2C communication'' @ [NL]
             else ''p '' @ dec (unat (word_of_int (atoi token) :: 16 word)) @ '' ''
                    @ dec (unat (word_of_int (atoi token2) :: 16 word)) @ [NL])"
proof -
  from assms obtain saved saved2 where
    "strtok args sep_tok = Some (token, saved)" "strtok saved sep_tok = Some (token2, saved2)"
    by (auto simp: tokens_Cons_iff)
  then show ?thesis
    by (simp add: interpret_command_def Let_def cmd_p_def i2c_write_blocking_def)
qed

lemma p_error_is_not_success:
  "''p error: unsuccessful I2C communication'' @ [NL] \<noteq> ''p '' @ dec a @ '' '' @ dec b @ [NL]"
proof
  assume "''p error: unsuccessful I2C communication'' @ [NL] = ''p '' @ dec a @ '' '' @ dec b @ [NL]"
  then have "''error: unsuccessful I2C communication'' @ [NL] = dec a @ '' '' @ dec b @ [NL]"
    by simp
  moreover obtain d ds where "dec a = d # ds"
    using dec_not_Nil [of a] by (cases "dec a") auto
  ultimately have "d = CHR ''e''" "d \<in> set (dec a)"
    by simp_all
  then have "isdigit (CHR ''e'')"
    using dec_digits by blast
  then show False
    by (simp add: isdigit_def)
qed

lemma byte_eq_of_nat: "unat (w :: 8 word) = n \<Longrightarrow> w = of_nat n"
  by auto

text \<open>
  Claim C3.  When the \<open>p\<close> command carries two tokens that \<open>atoi\<close> reads as values
  \<open>us_SH\<close> and \<open>us_ICG\<close> below \<open>2 ^ 16\<close>, it returns; the message bytes are the high and
  low byte of \<open>us_SH\<close> followed by the high and low byte of \<open>us_ICG\<close>; the only bus
  call is one \<open>i2c_write_blocking\<close> of these 4 bytes to address \<open>0x51\<close>; and the answer
  is \<open>p us_SH us_ICG\<close> exactly when that call returned 4, and otherwise
  \<open>p error: unsuccessful I2C communication\<close>.
\<close>

theorem p_sends_period_message:
  assumes "tokens args = token # token2 # rest"
    and "atoi token = int us_SH" and "us_SH < 65536"
    and "atoi token2 = int us_ICG" and "us_ICG < 65536"
  shows "\<exists>s'. interpret_command fp (CHR ''p'' # args) s = Inr s'
     \<and> msg_bytes s' = [of_nat (us_SH div 256), of_nat (us_SH mod 256),
                        of_nat (us_ICG div 256), of_nat (us_ICG mod 256)]
     \<and> trace s' = trace s @ (if override_led s = 0 then [LedPut True] else [])
          @ [I2cWrite 0x51 (msg_bytes s') 4 False (next_value (i2c_in s))]
          @ (if override_led s = 0 then [LedPut False] else [])
     \<and> (stdout s' = stdout s @ ''p '' @ dec us_SH @ '' '' @ dec us_ICG @ [NL]
          \<longleftrightarrow> next_value (i2c_in s) = 4)
     \<and> (next_value (i2c_in s) \<noteq> 4 \<longrightarrow>
          stdout s' = stdout s @ ''p error: unsuccessful I2C communication'' @ [NL])"
proof -
  have "nat (int us_SH mod 65536) = us_SH" and "nat (int us_ICG mod 65536) = us_ICG"
    using assms(3,5) by simp_all
  then have sh: "unat (word_of_int (atoi token) :: 16 word) = us_SH"
    and icg: "unat (word_of_int (atoi token2) :: 16 word) = us_ICG"
    by (simp_all only: assms(2,4) unat_u16_of_int)
  have bytes:
    "(ucast (drop_bit 8 ((word_of_int (atoi token) :: 16 word) AND 0xff00)) :: 8 word) = of_nat (us_SH div 256)"
    "(ucast ((word_of_int (atoi token) :: 16 word) AND 0x00ff) :: 8 word) = of_nat (us_SH mod 256)"
    "(ucast (drop_bit 8 ((word_of_int (atoi token2) :: 16 word) AND 0xff00)) :: 8 word) = of_nat (us_ICG div 256)"
    "(ucast ((word_of_int (atoi token2) :: 16 word) AND 0x00ff) :: 8 word) = of_nat (us_ICG mod 256)"
    using sh icg by (simp_all only: byte_eq_of_nat unat_hi_byte unat_lo_byte)
  from interpret_p_two_tokens [OF assms(1), of fp s] obtain s' where
    run: "interpret_command fp (CHR ''p'' # args) s = Inr s'" and
    msg: "msg_bytes s' = [of_nat (us_SH div 256), of_nat (us_SH mod 256),
                          of_nat (us_ICG div 256), of_nat (us_ICG mod 256)]" and
    tr: "trace s' = trace s @ (if override_led s = 0 then [LedPut True] else [])
          @ [I2cWrite 0x51 (msg_bytes s') 4 False (next_value (i2c_in s))]
          @ (if override_led s = 0 then [LedPut False] else [])" and
    out: "stdout s' = stdout s
          @ (if next_value (i2c_in s) \<noteq> 4 then ''p error: unsuccessful I2C communication'' @ [NL]
             else ''p '' @ dec us_SH @ '' '' @ dec us_ICG @ [NL])"
    unfolding bytes sh icg by blast
  have iff: "stdout s' = stdout s @ ''p '' @ dec us_SH @ '' '' @ dec us_ICG @ [NL]
          \<longleftrightarrow> next_value (i2c_in s) = 4"
    using out p_error_is_not_success [of us_SH us_ICG] by (cases "next_value (i2c_in s) = 4") simp_all
  have err: "next_value (i2c_in s) \<noteq> 4 \<longrightarrow>
          stdout s' = stdout s @ ''p error: unsuccessful I2C communication'' @ [NL]"
    using out by simp
  show ?thesis
    by (intro exI [of _ s'] conjI) (rule run msg tr iff err)+
qed

theorem p_sends_period_message_witness:
  "(\<exists>s'. interpret_command (\<lambda>_. ([], [])) ''p 300 8400'' (power_on [] [] (\<lambda>_. 7) (\<lambda>_. 0) (\<lambda>_. 4)) = Inr s'
       \<and> msg_bytes s' = [1, 44, 32, 208]
       \<and> trace s' = [LedPut True, I2cWrite 0x51 [1, 44, 32, 208] 4 False 4, LedPut False]
       \<and> stdout s' = ''p 300 8400'' @ [NL])
   \<and> (\<exists>s'. interpret_command (\<lambda>_. ([], [])) ''p 300 8400'' (power_on [] [] (\<lambda>_. 7) (\<lambda>_. 0) (\<lambda>_. 3)) = Inr s'
       \<and> msg_bytes s' = [1, 44, 32, 208]
       \<and> trace s' = [LedPut True, I2cWrite 0x51 [1, 44, 32, 208] 4 False 3, LedPut False]
       \<and> stdout s' = ''p error: unsuccessful I2C communication'' @ [NL])"
proof -
  let ?fp = "\<lambda>_ :: 16 word list. ([] :: string, [] :: string)"
  have toks: "tokens '' 300 8400'' = ''300'' # ''8400'' # []"
    by (simp add: tokens.simps strtok_def sep_tok_def)
  have "atoi ''300'' = 300" and "atoi ''8400'' = 8400"
    by (simp_all add: atoi_def isspace_def isdigit_def digit_val_def INT_MAX_def INT_MIN_def)
  then have v1: "atoi ''300'' = int 300" and v2: "atoi ''8400'' = int 8400"
    by simp_all
  have r1: "(300::nat) < 65536" and r2: "(8400::nat) < 65536"
    by simp_all
  have texts: "dec 300 = ''300''" "dec 8400 = ''8400''"
    by (simp_all add: dec.simps digit_char_def)
  have ok: "\<exists>s'. interpret_command ?fp ''p 300 8400'' (power_on [] [] (\<lambda>_. 7) (\<lambda>_. 0) (\<lambda>_. 4)) = Inr s'
       \<and> msg_bytes s' = [1, 44, 32, 208]
       \<and> trace s' = [LedPut True, I2cWrite 0x51 [1, 44, 32, 208] 4 False 4, LedPut False]
       \<and> stdout s' = ''p 300 8400'' @ [NL]"
    using p_sends_period_message [OF toks v1 r1 v2 r2, of ?fp "power_on [] [] (\<lambda>_. 7) (\<lambda>_. 0) (\<lambda>_. 4)"]
    by (auto simp: power_on_def next_value_def texts)
  have bad: "\<exists>s'. interpret_command ?fp ''p 300 8400'' (power_on [] [] (\<lambda>_. 7) (\<lambda>_. 0) (\<lambda>_. 3)) = Inr s'
       \<and> msg_bytes s' = [1, 44, 32, 208]
       \<and> trace s' = [LedPut True, I2cWrite 0x51 [1, 44, 32, 208] 4 False 3, LedPut False]
       \<and> stdout s' = ''p error: unsuccessful I2C communication'' @ [NL]"
    using p_sends_period_message [OF toks v1 r1 v2 r2, of ?fp "power_on [] [] (\<lambda>_. 7) (\<lambda>_. 0) (\<lambda>_. 3)"]
    by (auto simp: power_on_def next_value_def texts)
  from ok bad show ?thesis by blast
qed

text \<open>
  Claim C10.  When the two tokens of a \<open>p\<close> command are read by \<open>atoi\<close> as \<open>a\<close> and
  \<open>b\<close>, the values used are \<open>a mod 2 ^ 16\<close> and \<open>b mod 2 ^ 16\<close>: their high and low
  bytes are the message written to the bus, and on success they are the numbers echoed.
\<close>

theorem p_truncates_to_16_bits:
  assumes "tokens args = token # token2 # rest" and "atoi token = a" and "atoi token2 = b"
  shows "\<exists>s'. interpret_command fp (CHR ''p'' # args) s = Inr s'
     \<and> map unat (msg_bytes s')
          = [nat (a mod 65536) div 256, nat (a mod 65536) mod 256,
             nat (b mod 65536) div 256, nat (b mod 65536) mod 256]
     \<and> I2cWrite 0x51 (msg_bytes s') 4 False (next_value (i2c_in s)) \<in> set (trace s')
     \<and> (next_value (i2c_in s) = 4 \<longrightarrow>
          stdout s' = stdout s @ ''p '' @ dec (nat (a mod 65536)) @ '' ''
                        @ dec (nat (b mod 65536)) @ [NL])"
proof -
  from interpret_p_two_tokens [OF assms(1), of fp s] obtain s' where
    run: "interpret_command fp (CHR ''p'' # args) s = Inr s'" and
    msg: "msg_bytes s'
          = [ucast (drop_bit 8 ((word_of_int a :: 16 word) AND 0xff00)),
             ucast ((word_of_int a :: 16 word) AND 0x00ff),
             ucast (drop_bit 8 ((word_of_int b :: 16 word) AND 0xff00)),
             ucast ((word_of_int b :: 16 word) AND 0x00ff)]" and
    tr: "trace s' = trace s @ (if override_led s = 0 then [LedPut True] else [])
          @ [I2cWrite 0x51 (msg_bytes s') 4 False (next_value (i2c_in s))]
          @ (if override_led s = 0 then [LedPut False] else [])" and
    out: "stdout s' = stdout s
          @ (if next_value (i2c_in s) \<noteq> 4 then ''p error: unsuccessful I2C communication'' @ [NL]
             else ''p '' @ dec (unat (word_of_int a :: 16 word)) @ '' ''
                    @ dec (unat (word_of_int b :: 16 word)) @ [NL])"
    unfolding assms(2,3) by blast
  have m: "map unat (msg_bytes s')
          = [nat (a mod 65536) div 256, nat (a mod 65536) mod 256,
             nat (b mod 65536) div 256, nat (b mod 65536) mod 256]"
    unfolding msg by (simp only: list.map unat_hi_byte unat_lo_byte unat_u16_of_int)
  have w: "I2cWrite 0x51 (msg_bytes s') 4 False (next_value (i2c_in s)) \<in> set (trace s')"
    unfolding tr by simp
  have ok: "next_value (i2c_in s) = 4 \<longrightarrow>
          stdout s' = stdout s @ ''p '' @ dec (nat (a mod 65536)) @ '' ''
                        @ dec (nat (b mod 65536)) @ [NL]"
    using out by (simp add: unat_u16_of_int)
  show ?thesis
    by (intro exI [of _ s'] conjI) (rule run m w ok)+
qed

theorem p_truncates_to_16_bits_witness:
  "\<exists>s'. interpret_command (\<lambda>_. ([], [])) ''p 70000,-1'' (power_on [] [] (\<lambda>_. 7) (\<lambda>_. 0) (\<lambda>_. 4)) = Inr s'
       \<and> map unat (msg_bytes s') = [17, 112, 255, 255]
       \<and> I2cWrite 0x51 (msg_bytes s') 4 False 4 \<in> set (trace s')
       \<and> stdout s' = ''p 4464 65535'' @ [NL]"
proof -
  let ?fp = "\<lambda>_ :: 16 word list. ([] :: string, [] :: string)"
  have toks: "tokens '' 70000,-1'' = ''70000'' # ''-1'' # []"
    by (simp add: tokens.simps strtok_def sep_tok_def)
  have v1: "atoi ''70000'' = 70000" and v2: "atoi ''-1'' = - 1"
    by (simp_all add: atoi_def isspace_def isdigit_def digit_val_def INT_MAX_def INT_MIN_def)
  have texts: "dec 4464 = ''4464''" "dec 65535 = ''65535''"
    by (simp_all add: dec.simps digit_char_def)
  show ?thesis
    using p_truncates_to_16_bits [OF toks v1 v2, of ?fp "power_on [] [] (\<lambda>_. 7) (\<lambda>_. 0) (\<lambda>_. 4)"]
    by (auto simp: power_on_def next_value_def texts)
qed

section \<open>The wait for the ICG edge\<close>

lemma wait_while_high_run:
  "wait_while_high (replicate h True @ False # ys) tr
     = Inr (ys, tr @ map IcgGet (replicate h True @ [False]))"
  by (induction h arbitrary: tr) simp_all

lemma wait_while_low_run:
  "wait_while_low (replicate l False @ True # ys) tr
     = Inr (ys, tr @ map IcgGet (replicate l False @ [True]))"
  by (induction l arbitrary: tr) simp_all

lemma wait_while_high_shape:
  "wait_while_high xs tr = Inr (ys, tr') \<Longrightarrow> \<exists>h. xs = replicate h True @ False # ys"
proof (induction xs arbitrary: tr)
  case Nil
  then show ?case by simp
next
  case (Cons x xs)
  show ?case
  proof (cases x)
    case True
    with Cons.prems have "wait_while_high xs (tr @ [IcgGet True]) = Inr (ys, tr')" by simp
    from Cons.IH [OF this] obtain h where "xs = replicate h True @ False # ys" by blast
    with True show ?thesis by (intro exI [of _ "Suc h"]) simp
  next
    case False
    with Cons.prems show ?thesis by (intro exI [of _ 0]) simp
  qed
qed

lemma wait_while_low_shape:
  "wait_while_low xs tr = Inr (ys, tr') \<Longrightarrow> \<exists>l. xs = replicate l False @ True # ys"
proof (induction xs arbitrary: tr)
  case Nil
  then show ?case by simp
next
  case (Cons x xs)
  show ?case
  proof (cases x)
    case False
    with Cons.prems have "wait_while_low xs (tr @ [IcgGet False]) = Inr (ys, tr')" by simp
    from Cons.IH [OF this] obtain l where "xs = replicate l False @ True # ys" by blast
    with False show ?thesis by (intro exI [of _ "Suc l"]) simp
  next
    case True
    with Cons.prems show ?thesis by (intro exI [of _ 0]) simp
  qed
qed

lemma wait_for_ICG_run:
  assumes "icg_in s = replicate h True @ False # replicate l False @ True # later_icg"
  shows "wait_for_ICG s
     = Inr (s\<lparr>icg_in := later_icg,
              trace := trace s @ map IcgGet (replicate h True @ [False])
                         @ map IcgGet (replicate l False @ [True])\<rparr>)"
  unfolding wait_for_ICG_def assms
  by (simp only: wait_while_high_run wait_while_low_run sum.case prod.case append_assoc)

lemma wait_for_ICG_shape:
  assumes "wait_for_ICG s = Inr s'"
  shows "\<exists>h l. icg_in s = replicate h True @ False # replicate l False @ True # icg_in s'"
proof -
  from assms obtain xs tr ys tr' where
    a: "wait_while_high (icg_in s) (trace s) = Inr (xs, tr)" and
    b: "wait_while_low xs tr = Inr (ys, tr')" and
    c: "s' = s\<lparr>icg_in := ys, trace := tr'\<rparr>"
    by (auto simp: wait_for_ICG_def split: sum.splits prod.splits)
  from wait_while_high_shape [OF a] wait_while_low_shape [OF b] c show ?thesis
    by auto
qed

lemma adc_capture_run:
  assumes "length (adc_samples s) = count" and "fifo_in s = vs @ later_fifo" and "length vs = count"
  shows "adc_capture count s
     = Inr (s\<lparr>adc_samples := vs, fifo_in := later_fifo,
              trace := trace s @ [AdcRun True] @ map FifoGet vs @ [AdcRun False, FifoDrain]\<rparr>)"
proof -
  let ?s0 = "s\<lparr>trace := trace s @ [AdcRun True]\<rparr>"
  have "adc_capture_loop count 0 ?s0
      = Inr (?s0\<lparr>adc_samples := take 0 (adc_samples ?s0) @ vs @ drop count (adc_samples ?s0),
                  fifo_in := later_fifo, trace := trace ?s0 @ map FifoGet vs\<rparr>)"
    using assms by (intro adc_capture_loop_run) simp_all
  then show ?thesis
    using assms by (simp add: adc_capture_def)
qed

lemma cmd_b_run:
  assumes "length (adc_samples t) = N_SAMPLES"
    and "icg_in t = replicate h True @ False # replicate l False @ True # later_icg"
    and "fifo_in t = vs @ later_fifo" and "length vs = N_SAMPLES"
  shows "\<exists>t'. cmd_b fp t = Inr t'
     \<and> trace t' = trace t
          @ map IcgGet (replicate h True @ [False]) @ map IcgGet (replicate l False @ [True])
          @ [TimeUs (timer_in t 0), AdcRun True] @ map FifoGet vs
          @ [AdcRun False, FifoDrain, TimeUs (timer_in t 1)]
     \<and> icg_in t' = later_icg \<and> adc_samples t' = vs \<and> fifo_in t' = later_fifo
     \<and> override_led t' = override_led t
     \<and> stdout t' = stdout t @ ''b '' @ fst (fp vs) @ '' '' @ snd (fp vs) @ '' ''
          @ dec (unat (timer_in t 1 - timer_in t 0)) @ [NL]"
  using assms(1,3,4)
  by (simp add: cmd_b_def wait_for_ICG_run [OF assms(2)] time_us_32_def
      adc_capture_run [where vs = vs and later_fifo = later_fifo]
      next_value_def later_values_def split_beta)

lemma interpret_b_run:
  assumes "length (adc_samples s) = N_SAMPLES"
    and "icg_in s = replicate h True @ False # replicate l False @ True # later_icg"
    and "fifo_in s = vs @ later_fifo" and "length vs = N_SAMPLES"
  shows "\<exists>s'. interpret_command fp (CHR ''b'' # args) s = Inr s'
     \<and> trace s' = trace s @ (if override_led s = 0 then [LedPut True] else [])
          @ map IcgGet (replicate h True @ [False]) @ map IcgGet (replicate l False @ [True])
          @ [TimeUs (timer_in s 0), AdcRun True] @ map FifoGet vs
          @ [AdcRun False, FifoDrain, TimeUs (timer_in s 1)]
          @ (if override_led s = 0 then [LedPut False] else [])
     \<and> icg_in s' = later_icg \<and> adc_samples s' = vs \<and> fifo_in s' = later_fifo
     \<and> stdout s' = stdout s @ ''b '' @ fst (fp vs) @ '' '' @ snd (fp vs) @ '' ''
          @ dec (unat (timer_in s 1 - timer_in s 0)) @ [NL]"
proof (cases "override_led s = 0")
  case True
  from cmd_b_run [of "gpio_put_LED True s" h l later_icg vs later_fifo fp] assms
  obtain t' where t': "cmd_b fp (gpio_put_LED True s) = Inr t'"
     "trace t' = trace (gpio_put_LED True s)
          @ map IcgGet (replicate h True @ [False]) @ map IcgGet (replicate l False @ [True])
          @ [TimeUs (timer_in s 0), AdcRun True] @ map FifoGet vs
          @ [AdcRun False, FifoDrain, TimeUs (timer_in s 1)]"
     "icg_in t' = later_icg" "adc_samples t' = vs" "fifo_in t' = later_fifo"
     "override_led t' = override_led s"
     "stdout t' = stdout s @ ''b '' @ fst (fp vs) @ '' '' @ snd (fp vs) @ '' ''
          @ dec (unat (timer_in s 1 - timer_in s 0)) @ [NL]"
    by auto
  with True show ?thesis
    by (simp add: interpret_command_def Let_def)
next
  case False
  from cmd_b_run [of s h l later_icg vs later_fifo fp] assms
  obtain t' where t': "cmd_b fp s = Inr t'"
     "trace t' = trace s
          @ map IcgGet (replicate h True @ [False]) @ map IcgGet (replicate l False @ [True])
          @ [TimeUs (timer_in s 0), AdcRun True] @ map FifoGet vs
          @ [AdcRun False, FifoDrain, TimeUs (timer_in s 1)]"
     "icg_in t' = later_icg" "adc_samples t' = vs" "fifo_in t' = later_fifo"
     "override_led t' = override_led s"
     "stdout t' = stdout s @ ''b '' @ fst (fp vs) @ '' '' @ snd (fp vs) @ '' ''
          @ dec (unat (timer_in s 1 - timer_in s 0)) @ [NL]"
    by auto
  with False show ?thesis
    by (simp add: interpret_command_def Let_def)
qed


lemma adc_capture_loop_icg:
  "adc_capture_loop count i s = Inr s' \<Longrightarrow> icg_in s' = icg_in s"
proof (induction count i s rule: adc_capture_loop.induct)
  case (1 count i s)
  show ?case
  proof (cases "i < count")
    case True
    with "1.prems" obtain v vs where f: "fifo_in s = v # vs" and il: "i < length (adc_samples s)"
      by (subst (asm) adc_capture_loop.simps) (auto split: list.splits if_splits)
    with True "1.prems" have
      "adc_capture_loop count (i + 1) (s\<lparr>adc_samples := (adc_samples s)[i := v], fifo_in := vs,
                       trace := trace s @ [FifoGet v]\<rparr>) = Inr s'"
      by (subst (asm) adc_capture_loop.simps) simp
    from "1.IH" [OF True f il this] show ?thesis by simp
  next
    case False
    with "1.prems" show ?thesis by (subst (asm) adc_capture_loop.simps) simp
  qed
qed

lemma cmd_b_icg:
  assumes "cmd_b fp t = Inr t'"
  shows "\<exists>h l. icg_in t = replicate h True @ False # replicate l False @ True # icg_in t'"
proof -
  from assms obtain t1 where w: "wait_for_ICG t = Inr t1" and "icg_in t' = icg_in t1"
    by (auto simp: cmd_b_def time_us_32_def adc_capture_def Let_def
        split: sum.splits prod.splits dest!: adc_capture_loop_icg)
  with wait_for_ICG_shape [OF w] show ?thesis by simp
qed

lemma interpret_b_icg:
  assumes "interpret_command fp (CHR ''b'' # args) s = Inr s'"
  shows "\<exists>h l. icg_in s = replicate h True @ False # replicate l False @ True # icg_in s'"
proof -
  let ?s1 = "if override_led s = 0 then gpio_put_LED True s else s"
  from assms obtain t' where "cmd_b fp ?s1 = Inr t'" and "icg_in s' = icg_in t'"
    by (auto simp: interpret_command_def Let_def split: sum.splits if_splits)
  with cmd_b_icg [of fp ?s1 t'] show ?thesis by (simp split: if_splits)
qed

text \<open>
  Claim C2, as the code has it.  The two loops wait in the order low, then high: the
  first polls while the pin reads high, the second while it reads low.  So when the
  readings are \<open>h\<close> times high, low, \<open>l\<close> times low, high, the \<open>b\<close> command takes
  exactly these readings, then reads the timer, switches the ADC on and pulls
  \<open>N_SAMPLES\<close> values from the FIFO into the Sample Buffer, in this order; and whenever
  the command returns, the readings it consumed had this form.
\<close>

theorem b_waits_for_low_then_high:
  assumes "length (adc_samples s) = N_SAMPLES"
  shows "(\<forall>h l later_icg vs later_fifo.
            icg_in s = replicate h True @ False # replicate l False @ True # later_icg
              \<and> fifo_in s = vs @ later_fifo \<and> length vs = N_SAMPLES \<longrightarrow>
            (\<exists>s'. interpret_command fp (CHR ''b'' # args) s = Inr s'
               \<and> trace s' = trace s @ (if override_led s = 0 then [LedPut True] else [])
                    @ map IcgGet (replicate h True @ [False])
                    @ map IcgGet (replicate l False @ [True])
                    @ [TimeUs (timer_in s 0), AdcRun True] @ map FifoGet vs
                    @ [AdcRun False, FifoDrain, TimeUs (timer_in s 1)]
                    @ (if override_led s = 0 then [LedPut False] else [])
               \<and> icg_in s' = later_icg \<and> adc_samples s' = vs \<and> fifo_in s' = later_fifo))
       \<and> (\<forall>s'. interpret_command fp (CHR ''b'' # args) s = Inr s' \<longrightarrow>
            (\<exists>h l. icg_in s = replicate h True @ False # replicate l False @ True # icg_in s'))"
proof (intro conjI allI impI)
  fix h l later_icg vs later_fifo
  assume "icg_in s = replicate h True @ False # replicate l False @ True # later_icg
              \<and> fifo_in s = vs @ later_fifo \<and> length vs = N_SAMPLES"
  then have a: "icg_in s = replicate h True @ False # replicate l False @ True # later_icg"
    and b: "fifo_in s = vs @ later_fifo" and c: "length vs = N_SAMPLES"
    by simp_all
  from interpret_b_run [OF assms a b c, of fp args]
  show "\<exists>s'. interpret_command fp (CHR ''b'' # args) s = Inr s'
               \<and> trace s' = trace s @ (if override_led s = 0 then [LedPut True] else [])
                    @ map IcgGet (replicate h True @ [False])
                    @ map IcgGet (replicate l False @ [True])
                    @ [TimeUs (timer_in s 0), AdcRun True] @ map FifoGet vs
                    @ [AdcRun False, FifoDrain, TimeUs (timer_in s 1)]
                    @ (if override_led s = 0 then [LedPut False] else [])
               \<and> icg_in s' = later_icg \<and> adc_samples s' = vs \<and> fifo_in s' = later_fifo"
    by blast
next
  fix s'
  assume "interpret_command fp (CHR ''b'' # args) s = Inr s'"
  then show "\<exists>h l. icg_in s = replicate h True @ False # replicate l False @ True # icg_in s'"
    by (rule interpret_b_icg)
qed

theorem b_waits_for_low_then_high_witness:
  "length (adc_samples (power_on [True, False, False, True, True] (replicate 3800 5 @ [9])
                          (\<lambda>_. 7) (\<lambda>n. 100 + 8000 * of_nat n) (\<lambda>_. 4))) = N_SAMPLES
   \<and> (\<exists>s'. interpret_command (\<lambda>_. (''5'', ''0'')) ''b''
               (power_on [True, False, False, True, True] (replicate 3800 5 @ [9])
                  (\<lambda>_. 7) (\<lambda>n. 100 + 8000 * of_nat n) (\<lambda>_. 4)) = Inr s'
         \<and> take 6 (trace s')
             = [LedPut True, IcgGet True, IcgGet False, IcgGet False, IcgGet True, TimeUs 100]
         \<and> icg_in s' = [True] \<and> adc_samples s' = replicate 3800 5 \<and> fifo_in s' = [9])"
proof -
  let ?s = "power_on [True, False, False, True, True] (replicate 3800 5 @ [9])
                  (\<lambda>_. 7) (\<lambda>n. 100 + 8000 * of_nat n) (\<lambda>_. 4)"
  have len: "length (adc_samples ?s) = N_SAMPLES"
    by (simp add: power_on_def)
  have shape: "icg_in ?s = replicate 1 True @ False # replicate 1 False @ True # [True]
              \<and> fifo_in ?s = replicate 3800 5 @ [9] \<and> length (replicate 3800 (5 :: 16 word)) = N_SAMPLES"
    by (simp add: power_on_def N_SAMPLES_def)
  from b_waits_for_low_then_high [OF len, of "\<lambda>_. (''5'', ''0'')" "[]"] shape
  obtain s' where
    run: "interpret_command (\<lambda>_. (''5'', ''0'')) ''b'' ?s = Inr s'" and
    tr: "trace s' = trace ?s @ (if override_led ?s = 0 then [LedPut True] else [])
                    @ map IcgGet (replicate 1 True @ [False])
                    @ map IcgGet (replicate 1 False @ [True])
                    @ [TimeUs (timer_in ?s 0), AdcRun True] @ map FifoGet (replicate 3800 5)
                    @ [AdcRun False, FifoDrain, TimeUs (timer_in ?s 1)]
                    @ (if override_led ?s = 0 then [LedPut False] else [])" and
    rest: "icg_in s' = [True]" "adc_samples s' = replicate 3800 5" "fifo_in s' = [9]"
    by blast
  have "take 6 (trace s')
      = [LedPut True, IcgGet True, IcgGet False, IcgGet False, IcgGet True, TimeUs 100]"
    unfolding tr by (simp add: power_on_def)
  with len run rest show ?thesis by blast
qed

text \<open>
  The order stated in the claim (until high, then until low) is not what happens: on
  the readings low, high the command starts the timer and the ADC right after the high
  reading, whereas a wait for high and then low would still be waiting.
\<close>

theorem b_does_not_wait_for_high_then_low:
  "(\<exists>s'. interpret_command (\<lambda>_. (''5'', ''0'')) ''b''
             (power_on [False, True] (replicate 3800 5) (\<lambda>_. 7) (\<lambda>n. 100 + 8000 * of_nat n) (\<lambda>_. 4))
             = Inr s'
        \<and> take 5 (trace s') = [LedPut True, IcgGet False, IcgGet True, TimeUs 100, AdcRun True]
        \<and> adc_samples s' = replicate 3800 5)
   \<and> wait_high_then_low_spec
        (power_on [False, True] (replicate 3800 5) (\<lambda>_. 7) (\<lambda>n. 100 + 8000 * of_nat n) (\<lambda>_. 4))
       = Inl Blocked"
proof -
  let ?s = "power_on [False, True] (replicate 3800 5) (\<lambda>_. 7) (\<lambda>n. 100 + 8000 * of_nat n) (\<lambda>_. 4)"
  have len: "length (adc_samples ?s) = N_SAMPLES"
    by (simp add: power_on_def)
  have icg: "icg_in ?s = replicate 0 True @ False # replicate 0 False @ True # []"
    by (simp add: power_on_def)
  have fifo: "fifo_in ?s = replicate 3800 5 @ []"
    by (simp add: power_on_def)
  have n: "length (replicate 3800 (5 :: 16 word)) = N_SAMPLES"
    by (simp add: N_SAMPLES_def)
  from interpret_b_run [OF len icg fifo n, of "\<lambda>_. (''5'', ''0'')" "[]"] obtain s' where
    run: "interpret_command (\<lambda>_. (''5'', ''0'')) ''b'' ?s = Inr s'" and
    tr: "trace s' = trace ?s @ (if override_led ?s = 0 then [LedPut True] else [])
          @ map IcgGet (replicate 0 True @ [False]) @ map IcgGet (replicate 0 False @ [True])
          @ [TimeUs (timer_in ?s 0), AdcRun True] @ map FifoGet (replicate 3800 5)
          @ [AdcRun False, FifoDrain, TimeUs (timer_in ?s 1)]
          @ (if override_led ?s = 0 then [LedPut False] else [])" and
    buf: "adc_samples s' = replicate 3800 5"
    by blast
  have first: "take 5 (trace s') = [LedPut True, IcgGet False, IcgGet True, TimeUs 100, AdcRun True]"
    unfolding tr by (simp add: power_on_def)
  have spec: "wait_high_then_low_spec ?s = Inl Blocked"
    by (simp add: wait_high_then_low_spec_def power_on_def)
  from run first buf spec show ?thesis by blast
qed

section \<open>Rounding to binary32\<close>

lemma exponent_bounds:
  assumes "0 < x"
  shows "2 powi (exponent x) \<le> x \<and> x < 2 powi (exponent x + 1)"
proof (cases "1 \<le> x")
  case True
  let ?n = "\<lfloor>x\<rfloor>"
  from True have n: "0 < ?n" by simp
  from bitlen_bounds [OF n] have lo: "2 ^ nat (bitlen ?n - 1) \<le> ?n" and hi: "?n < 2 ^ nat (bitlen ?n)"
    by simp_all
  from n have b1: "1 \<le> bitlen ?n"
    by (simp add: bitlen_alt_def)
  have e: "exponent x = bitlen ?n - 1"
    using True by (simp add: exponent_def)
  have "(2::real) powi (bitlen ?n - 1) = 2 ^ nat (bitlen ?n - 1)"
    using b1 by (simp add: power_int_def)
  also have "\<dots> = of_int (2 ^ nat (bitlen ?n - 1))" by simp
  also have "\<dots> \<le> of_int ?n" using lo by (simp only: of_int_le_iff)
  also have "\<dots> \<le> x" by simp
  finally have A: "2 powi (exponent x) \<le> x" using e by simp
  have "?n + 1 \<le> 2 ^ nat (bitlen ?n)" using hi by simp
  then have "real_of_int (?n + 1) \<le> of_int (2 ^ nat (bitlen ?n))" by (simp only: of_int_le_iff)
  then have "real_of_int ?n + 1 \<le> 2 ^ nat (bitlen ?n)" by simp
  moreover have "x < real_of_int ?n + 1" by linarith
  ultimately have "x < 2 ^ nat (bitlen ?n)" by linarith
  moreover have "(2::real) powi (bitlen ?n - 1 + 1) = 2 ^ nat (bitlen ?n)"
    using b1 by (simp add: power_int_def)
  ultimately have B: "x < 2 powi (exponent x + 1)" using e by simp
  from A B show ?thesis ..
next
  case False
  let ?y = "1 / x"
  let ?m = "\<lceil>?y\<rceil>"
  from False assms have y1: "1 < ?y" by simp
  then have m2: "2 \<le> ?m" by (simp add: le_ceiling_iff)
  then have n: "0 < ?m - 1" by simp
  let ?b = "bitlen (?m - 1)"
  from bitlen_bounds [OF n] have lo: "2 ^ nat (?b - 1) \<le> ?m - 1" and hi: "?m - 1 < 2 ^ nat ?b"
    by simp_all
  from n have b1: "1 \<le> ?b"
    by (simp add: bitlen_alt_def)
  have e: "exponent x = - ?b"
    using False by (simp add: exponent_def)
  have "?m \<le> 2 ^ nat ?b" using hi by simp
  then have "real_of_int ?m \<le> of_int (2 ^ nat ?b)" by (simp only: of_int_le_iff)
  moreover have "?y \<le> real_of_int ?m" by linarith
  moreover have "real_of_int (2 ^ nat ?b) = 2 ^ nat ?b" by simp
  ultimately have "?y \<le> 2 ^ nat ?b" by linarith
  then have "1 \<le> x * 2 ^ nat ?b" using assms by (simp add: field_simps)
  then have "1 / 2 ^ nat ?b \<le> x" by (simp add: field_simps)
  moreover have "(2::real) powi (- ?b) = 1 / 2 ^ nat ?b"
    using b1 by (simp add: power_int_def field_simps)
  ultimately have A: "2 powi (exponent x) \<le> x" using e by simp
  have "real_of_int (2 ^ nat (?b - 1)) \<le> of_int (?m - 1)" using lo by (simp only: of_int_le_iff)
  moreover have "real_of_int (?m - 1) < ?y" by linarith
  moreover have "real_of_int (2 ^ nat (?b - 1)) = 2 ^ nat (?b - 1)" by simp
  ultimately have "2 ^ nat (?b - 1) < ?y" by linarith
  then have "x * 2 ^ nat (?b - 1) < 1" using assms by (simp add: field_simps)
  then have "x < 1 / 2 ^ nat (?b - 1)" by (simp add: field_simps)
  moreover have "(2::real) powi (- ?b + 1) = 1 / 2 ^ nat (?b - 1)"
  proof -
    have "- ?b + 1 = - (?b - 1)" by simp
    then have "(2::real) powi (- ?b + 1) = inverse (2 powi (?b - 1))"
      by (simp only: power_int_minus)
    also have "\<dots> = 1 / 2 ^ nat (?b - 1)"
      using b1 by (simp add: power_int_def field_simps)
    finally show ?thesis .
  qed
  ultimately have B: "x < 2 powi (exponent x + 1)" using e by simp
  from A B show ?thesis ..
qed


lemma round_half_even_int [simp]: "round_half_even (of_int k) = k"
  by (simp add: round_half_even_def)



lemma round_to_0 [simp]: "round_to p 0 = 0"
  by (simp add: round_to_def)

lemma round_to_int_exact:
  assumes "0 \<le> n" and "n < 2 ^ p"
  shows "round_to p (of_int n) = of_int n"
proof (cases "n = 0")
  case True
  then show ?thesis by simp
next
  case False
  with assms have pos: "0 < real_of_int n" by simp
  let ?e = "exponent (of_int n)"
  from exponent_bounds [OF pos] have
    lo: "2 powi ?e \<le> real_of_int n" and hi: "real_of_int n < 2 powi (?e + 1)" by simp_all
  have "real_of_int n < of_int (2 ^ p)"
    using assms(2) by (simp only: of_int_less_iff)
  then have np: "real_of_int n < 2 powi (int p)" by simp
  have ep: "?e < int p"
  proof (rule ccontr)
    assume "\<not> ?e < int p"
    then have "int p \<le> ?e" by simp
    from power_int_increasing [OF this, of 2]
    have "(2::real) powi (int p) \<le> 2 powi ?e" by simp
    with lo np show False by linarith
  qed
  define k where "k = nat (int p - 1 - ?e)"
  have q: "(2::real) powi (?e - int p + 1) = 1 / 2 ^ k"
  proof -
    have "?e - int p + 1 = - int k" using ep by (simp add: k_def)
    then have "(2::real) powi (?e - int p + 1) = 2 powi (- int k)" by (simp only:)
    also have "\<dots> = inverse (2 powi (int k))" by (rule power_int_minus)
    also have "\<dots> = 1 / 2 ^ k" by (simp add: field_simps)
    finally show ?thesis .
  qed
  have "real_of_int n / (1 / 2 ^ k) = of_int (n * 2 ^ k)"
    by simp
  then have "round_half_even (real_of_int n / (1 / 2 ^ k)) = n * 2 ^ k"
    by (simp only: round_half_even_int)
  then show ?thesis
    using pos by (simp add: round_to_def Let_def q)
qed

lemma f32_nat_exact: "n < 2 ^ 24 \<Longrightarrow> f32 (real n) = real n"
  using round_to_int_exact [of "int n" 24] by (simp add: f32_def)

lemma f32_0 [simp]: "f32 0 = 0"
  by (simp add: f32_def)

lemma f64_0 [simp]: "f64 0 = 0"
  by (simp add: f64_def)

subsection \<open>Sums of samples that stay exact\<close>

lemma unat_u16_small: "unat (x :: 16 word) < 2 ^ 24"
proof -
  have "unat x < 2 ^ 16" using unsigned_less [of x] by simp
  then show ?thesis by simp
qed

lemma f32_sample: "f32 (real (unat (x :: 16 word))) = real (unat x)"
  by (rule f32_nat_exact) (rule unat_u16_small)

lemma f32_unsigned [simp]: "f32 (unsigned (x :: 16 word)) = unsigned x"
  using f32_sample [of x] by simp





lemma f32_N1: "f32 (3800 - 1) = 3799"
  using f32_nat_exact [of 3799] by simp









subsection \<open>The sum of 3800 samples of value 65535\<close>






subsection \<open>The error of one rounding\<close>







subsection \<open>The error of the second pass\<close>








section \<open>The statistics of the \<open>b\<close> command\<close>




end
